theory Spec2Isabelle
  imports Main
begin

section \<open>The ipnserver session tracker, permission calculator and lifecycle\<close>

text \<open>
  A shallow embedding of package \<open>ipnserver\<close>: the \<open>Server\<close> struct, the identity
  resolver \<open>getConnIdentity\<close>, the permission functions \<open>localAPIPermissions\<close>,
  \<open>userIDFromString\<close>, \<open>isAllDigit\<close>, \<open>connCanFetchCerts\<close>, the session tracker
  \<open>checkConnIdentityLocked\<close>, \<open>addActiveHTTPRequest\<close> with its \<open>onDone\<close> closure, and
  the lifecycle functions \<open>New\<close>, \<open>SetLocalBackend\<close>, \<open>startBackendIfNeeded\<close>, \<open>Run\<close>.

  Conventions. A Go pointer that may be nil is an \<open>option\<close>. A function that may panic
  returns a \<open>go\<close> value (\<open>Return v\<close> or \<open>Panic msg\<close>). A function that changes the
  server takes the \<open>Server\<close> and returns the new one. Calls that change the backend, the
  writes to the active-request map and the operations on \<open>s.mu\<close> are recorded, in program
  order, as a list of \<open>event\<close>s. Methods run one at a time: the embedding describes each
  method as one atomic step and says nothing about goroutines racing inside a method.
  Log output (\<open>s.logf\<close>) is not recorded.
\<close>

subsection \<open>Data\<close>

text \<open>\<open>os/user.User\<close>: the two fields this package reads.\<close>

record user_User =
  Uid :: string
  Username :: string

text \<open>
  \<open>peercred.Creds\<close> (package \<open>inet.af/peercred\<close>) is opaque to this package: the only thing
  read from it is the answer \<open>(uid, ok)\<close> of its method \<open>UserID()\<close>.
\<close>

record peercred_Creds =
  Creds_UserID :: "string \<times> bool"

text \<open>
  What the resolvers observe of an accepted \<open>net.Conn\<close>: whether its dynamic type is
  \<open>*net.UnixConn\<close>, the answer of \<open>peercred.Get(c)\<close> (an error, or the credentials),
  whether it has a \<open>Handle()\<close> method, and the answers of the operating system calls the
  Windows resolver makes for it: \<open>procGetNamedPipeClientProcessId.Call\<close> (the result \<open>r1\<close>,
  the pid written through the pointer, and the error), \<open>pidowner.OwnerOfPID\<close> and
  \<open>lookupUserFromID\<close>.
\<close>

record net_Conn =
  isUnixConn :: bool
  peercred_Get :: "string + peercred_Creds"
  Handle :: "nat option"
  GetNamedPipeClientProcessId_Call :: "nat \<times> nat \<times> string"
  pidowner_OwnerOfPID :: "string + string"
  lookupUserFromID :: "string + user_User"

text \<open>
  The identity of the peer of one connection: the fields that \<open>getConnIdentity\<close> fills
  in (\<open>Conn\<close>, \<open>NotWindows\<close>, \<open>IsUnixSock\<close>, \<open>Creds\<close>, \<open>Pid\<close>, \<open>UserID\<close>, \<open>User\<close>).
\<close>

record ConnIdentity =
  Conn :: net_Conn
  NotWindows :: bool
  IsUnixSock :: bool
  Creds :: "peercred_Creds option"
  Pid :: int
  UserID :: string
  User :: "user_User option"

text \<open>
  Modelled from the spec: the methods \<open>WindowsUserID()\<close>, \<open>User()\<close>, \<open>Pid()\<close>,
  \<open>IsUnixSock()\<close> and \<open>Creds()\<close> of \<open>ipnauth.ConnIdentity\<close>, through which the server
  reads an identity, are declared outside the source files at hand. Following the spec's
  data model (process id, resolved user id, display username, credential tuple) each
  method is the read of the field of the same name, and \<open>WindowsUserID()\<close> that of the
  field \<open>UserID\<close>.
\<close>

abbreviation WindowsUserID :: "ConnIdentity \<Rightarrow> string" where
  "WindowsUserID ci \<equiv> UserID ci"

text \<open>
  The backend collaborator \<open>*ipnlocal.LocalBackend\<close>, as the answers it gives to the
  queries this package makes: \<open>Prefs().Valid()\<close>, \<open>InServerMode()\<close>, \<open>OperatorUserID()\<close>
  and \<open>CheckIPNConnectionAllowed(ci)\<close> (\<open>None\<close> is the nil error).
\<close>

record LocalBackend =
  Prefs_Valid :: bool
  InServerMode :: bool
  OperatorUserID :: string
  CheckIPNConnectionAllowed :: "ConnIdentity \<Rightarrow> string option"

text \<open>An \<open>*http.Request\<close> is the key of the active-request map: its address.\<close>

type_synonym Request = nat

text \<open>
  The \<open>Server\<close> struct. \<open>lb\<close> is the atomic pointer (\<open>None\<close> is nil), \<open>startBackendOnce\<close>
  is the done flag of the \<open>sync.Once\<close>, \<open>runCalled\<close> the atomic bool. The Go map
  \<open>activeReqs\<close> is an association list with one entry per key; its values are pointers
  that the Go type allows to be nil.
\<close>

record Server =
  lb :: "LocalBackend option"
  resetOnZero :: bool
  startBackendOnce :: bool
  runCalled :: bool
  lastUserID :: string
  activeReqs :: "(Request \<times> ConnIdentity option) list"

datatype 'a go = Return 'a | Panic string

text \<open>
  The two errors built in this package. \<open>inUseOtherUserError\<close> wraps either the message
  \<open>fmt.Errorf("Tailscale already in use by %s, pid %d", username, pid)\<close>, kept as its two
  arguments, or the error of the backend's policy check.
\<close>

datatype wrapped = AlreadyInUseBy string int | BackendError string

datatype error = errors_New string | inUseOtherUserError wrapped

datatype event =
    MuLock
  | MuUnlock
  | ActiveSet Request
  | ActiveDelete Request
  | SetCurrentUserID string
  | ResetForClientDisconnect
  | Start
  | Shutdown

text \<open>
  The process environment: \<open>envknob.GOOS()\<close>, the environment variable
  \<open>TS_PERMIT_CERT_UID\<close> and the user database behind \<open>user.Lookup\<close>.
\<close>

record Env =
  GOOS :: string
  TS_PERMIT_CERT_UID :: string
  user_Lookup :: "string \<Rightarrow> string + user_User"

subsection \<open>The active-request map\<close>

text \<open>\<open>mak.Set(&m, k, v)\<close>, that is \<open>m[k] = v\<close> on a map allocated on demand.\<close>

fun mak_Set :: "'k \<Rightarrow> 'v \<Rightarrow> ('k \<times> 'v) list \<Rightarrow> ('k \<times> 'v) list" where
  "mak_Set k v [] = [(k, v)]"
| "mak_Set k v ((k', v') # m) = (if k' = k then (k, v) # m else (k', v') # mak_Set k v m)"

text \<open>The builtin \<open>delete(m, k)\<close>.\<close>

fun delete :: "'k \<Rightarrow> ('k \<times> 'v) list \<Rightarrow> ('k \<times> 'v) list" where
  "delete k [] = []"
| "delete k ((k', v') # m) = (if k' = k then delete k m else (k', v') # delete k m)"

text \<open>
  \<open>for _, active = range s.activeReqs { break }\<close> on a non-empty map: Go leaves the
  iteration order unspecified, so the entry visited first is chosen by the number \<open>pick\<close>,
  and every theorem holds for every \<open>pick\<close>.
\<close>

definition range_first :: "nat \<Rightarrow> ('k \<times> 'v) list \<Rightarrow> 'v" where
  "range_first pick m = snd (m ! (pick mod length m))"

subsection \<open>Identity resolver\<close>

text \<open>\<open>getNamedPipeClientProcessId\<close>.\<close>

definition getNamedPipeClientProcessId :: "net_Conn \<Rightarrow> string + nat" where
  "getNamedPipeClientProcessId c =
     (case GetNamedPipeClientProcessId_Call c of
        (r1, pid, err) \<Rightarrow> if r1 > 0 then Inr pid else Inl err)"

text \<open>
  The zero value \<open>connIdentity{Conn: c}\<close>.
\<close>

definition connIdentity_zero :: "net_Conn \<Rightarrow> ConnIdentity" where
  "connIdentity_zero c =
     \<lparr>Conn = c, NotWindows = False, IsUnixSock = False, Creds = None, Pid = 0,
      UserID = '''', User = None\<rparr>"

text \<open>
  \<open>getConnIdentity\<close> of the Windows build. It returns the identity filled in so far
  together with the error (\<open>None\<close> is nil); the error messages are kept as their prefix.
\<close>

definition getConnIdentity_windows :: "net_Conn \<Rightarrow> ConnIdentity \<times> string option" where
  "getConnIdentity_windows c =
     (let ci = connIdentity_zero c in
      case Handle c of
        None \<Rightarrow> (ci, Some ''not a windows handle'')
      | Some h \<Rightarrow>
         (case getNamedPipeClientProcessId c of
            Inl err \<Rightarrow> (ci, Some (''getNamedPipeClientProcessId: '' @ err))
          | Inr pid \<Rightarrow>
             (let ci = ci\<lparr>Pid := int pid\<rparr> in
              case pidowner_OwnerOfPID c of
                Inl err \<Rightarrow>
                  (ci, Some (''failed to map connection's pid to a user (WSL?): '' @ err))
              | Inr uid \<Rightarrow>
                 (let ci = ci\<lparr>UserID := uid\<rparr> in
                  case lookupUserFromID c of
                    Inl err \<Rightarrow> (ci, Some (''failed to look up user from userid: '' @ err))
                  | Inr u \<Rightarrow> (ci\<lparr>User := Some u\<rparr>, None)))))"

text \<open>\<open>getConnIdentity\<close> of the build with tag \<open>!windows\<close>.\<close>

definition getConnIdentity :: "net_Conn \<Rightarrow> ConnIdentity \<times> string option" where
  "getConnIdentity c =
     (let ci = (connIdentity_zero c)\<lparr>NotWindows := True\<rparr>;
          ci = ci\<lparr>NotWindows := True\<rparr>;
          ci = ci\<lparr>IsUnixSock := isUnixConn c\<rparr>;
          ci = ci\<lparr>Creds := (case peercred_Get c of Inl err \<Rightarrow> None | Inr cr \<Rightarrow> Some cr)\<rparr>
      in (ci, None))"

subsection \<open>Session tracker\<close>

definition mustBackend_msg :: string where
  "mustBackend_msg =
     ''unexpected: call to mustBackend in path where SetLocalBackend should've been called''"

definition mustBackend :: "Server \<Rightarrow> LocalBackend go" where
  "mustBackend s = (case lb s of None \<Rightarrow> Panic mustBackend_msg | Some b \<Rightarrow> Return b)"

text \<open>
  \<open>checkConnIdentityLocked\<close>, for a non-nil \<open>ci\<close>, as its two statements in turn:
  \<open>sameUserCheck\<close> is the statement \<open>if len(s.activeReqs) > 0 {...}\<close>, which returns the
  error, panics, or falls through (\<open>Return None\<close>); \<open>policyCheck\<close> is the statement
  \<open>if err := s.mustBackend().CheckIPNConnectionAllowed(ci); err != nil {...}\<close> with the
  final \<open>return nil\<close>. \<open>active.User().Username\<close> on a nil \<open>*user.User\<close> is a nil-pointer
  dereference.
\<close>

definition nil_deref_msg :: string where
  "nil_deref_msg = ''runtime error: invalid memory address or nil pointer dereference''"

definition sameUserCheck :: "Server \<Rightarrow> nat \<Rightarrow> ConnIdentity \<Rightarrow> error option go" where
  "sameUserCheck s pick ci =
     (if length (activeReqs s) > 0 then
        (case range_first pick (activeReqs s) of
           None \<Rightarrow> Return None
         | Some active \<Rightarrow>
            if WindowsUserID ci \<noteq> WindowsUserID active then
              (case User active of
                 None \<Rightarrow> Panic nil_deref_msg
               | Some u \<Rightarrow>
                  Return (Some (inUseOtherUserError (AlreadyInUseBy (Username u) (Pid active)))))
            else Return None)
      else Return None)"

definition policyCheck :: "Server \<Rightarrow> ConnIdentity \<Rightarrow> error option go" where
  "policyCheck s ci =
     (case mustBackend s of
        Panic m \<Rightarrow> Panic m
      | Return b \<Rightarrow>
         (case CheckIPNConnectionAllowed b ci of
            Some err \<Rightarrow> Return (Some (inUseOtherUserError (BackendError err)))
          | None \<Rightarrow> Return None))"

definition checkConnIdentityLocked ::
  "Server \<Rightarrow> nat \<Rightarrow> ConnIdentity \<Rightarrow> error option go" where
  "checkConnIdentityLocked s pick ci =
     (case sameUserCheck s pick ci of
        Panic m \<Rightarrow> Panic m
      | Return (Some err) \<Rightarrow> Return (Some err)
      | Return None \<Rightarrow> policyCheck s ci)"

text \<open>
  \<open>addActiveHTTPRequest\<close>. The result is the returned error (\<open>None\<close> is nil, and then
  the returned closure is \<open>onDone\<close> below for this \<open>req\<close>), the server afterwards and the
  events in program order. The two deferred calls run last-in first-out on every exit after
  their \<open>defer\<close> statement: first \<open>s.mu.Unlock()\<close>, then the function that resets when
  \<open>doReset\<close> is set.
\<close>

definition addActiveHTTPRequest ::
  "Server \<Rightarrow> nat \<Rightarrow> Request \<Rightarrow> ConnIdentity option \<Rightarrow> error option go \<times> Server \<times> event list" where
  "addActiveHTTPRequest s pick req ci_ptr =
     (case ci_ptr of
        None \<Rightarrow> (Return (Some (errors_New ''internal error: nil connIdentity'')), s, [])
      | Some ci \<Rightarrow>
         (case mustBackend s of
            Panic m \<Rightarrow> (Panic m, s, [])
          | Return b \<Rightarrow>
             (case checkConnIdentityLocked s pick ci of
                Panic m \<Rightarrow> (Panic m, s, [MuLock, MuUnlock])
              | Return (Some err) \<Rightarrow> (Return (Some err), s, [MuLock, MuUnlock])
              | Return None \<Rightarrow>
                 (let s1 = s\<lparr>activeReqs := mak_Set req (Some ci) (activeReqs s)\<rparr>;
                      uid = WindowsUserID ci
                  in
                  if uid \<noteq> '''' \<and> length (activeReqs s1) = 1 then
                    (if lastUserID s1 \<noteq> uid then
                       (if lastUserID s1 \<noteq> '''' then
                          (Return None, s1\<lparr>lastUserID := uid\<rparr>,
                           [MuLock, ActiveSet req, SetCurrentUserID uid, MuUnlock,
                            ResetForClientDisconnect])
                        else
                          (Return None, s1\<lparr>lastUserID := uid\<rparr>,
                           [MuLock, ActiveSet req, SetCurrentUserID uid, MuUnlock]))
                     else
                       (Return None, s1, [MuLock, ActiveSet req, SetCurrentUserID uid, MuUnlock]))
                  else
                    (Return None, s1, [MuLock, ActiveSet req, MuUnlock])))))"

text \<open>
  The closure \<open>onDone\<close> returned by \<open>addActiveHTTPRequest\<close>, with its captured variables
  \<open>lb\<close> (the backend loaded at registration, never nil) and \<open>req\<close>.
\<close>

definition onDone :: "LocalBackend \<Rightarrow> Request \<Rightarrow> Server \<Rightarrow> Server \<times> event list" where
  "onDone b req s =
     (let reqs = delete req (activeReqs s);
          remain = length reqs
      in (s\<lparr>activeReqs := reqs\<rparr>,
          [MuLock, ActiveDelete req, MuUnlock]
            @ (if remain = 0 \<and> resetOnZero s then
                 (if InServerMode b then [] else [ResetForClientDisconnect])
               else [])))"

subsection \<open>Permission calculator\<close>

text \<open>
  Modelled from the spec: method \<open>IsReadonlyConn\<close> of \<open>ipnauth.ConnIdentity\<close> is not among
  the source files at hand. The spec says of the domain-socket platforms: "write
  additionally requires the credential's user id differ from none and not match a
  configured operator (restricted) id -- i.e. the operator id gets read-only". So the
  connection is read-only when it has no credentials, when the credentials carry no user
  id, or when the user id is the configured (non-empty) operator id.
\<close>

definition IsReadonlyConn :: "ConnIdentity \<Rightarrow> string \<Rightarrow> bool" where
  "IsReadonlyConn ci operatorUID =
     (case Creds ci of
        None \<Rightarrow> True
      | Some creds \<Rightarrow>
         (case Creds_UserID creds of
            (uid, ok) \<Rightarrow> if \<not> ok then True else operatorUID \<noteq> '''' \<and> uid = operatorUID))"

text \<open>
  \<open>localAPIPermissions\<close>, for a non-nil \<open>ci\<close> (its only caller, \<open>serveHTTP\<close>, passes the
  identity that \<open>addActiveHTTPRequest\<close> accepted). The result is \<open>(read, write)\<close>.
\<close>

definition localAPIPermissions ::
  "Env \<Rightarrow> Server \<Rightarrow> nat \<Rightarrow> ConnIdentity \<Rightarrow> (bool \<times> bool) go" where
  "localAPIPermissions env s pick ci =
     (if GOOS env = ''windows'' then
        (case checkConnIdentityLocked s pick ci of
           Panic m \<Rightarrow> Panic m
         | Return None \<Rightarrow> Return (True, True)
         | Return (Some err) \<Rightarrow> Return (False, False))
      else if GOOS env = ''js'' then Return (True, True)
      else if IsUnixSock ci then
        (case mustBackend s of
           Panic m \<Rightarrow> Panic m
         | Return b \<Rightarrow> Return (True, \<not> IsReadonlyConn ci (OperatorUserID b)))
      else Return (False, False))"

text \<open>\<open>isAllDigit\<close>: the loop over the bytes of \<open>s\<close>; \<open>'0'\<close> is 48 and \<open>'9'\<close> is 57.\<close>

fun isAllDigit :: "string \<Rightarrow> bool" where
  "isAllDigit [] = True"
| "isAllDigit (b # s) =
     (if (of_char b :: nat) < 48 \<or> (of_char b :: nat) > 57 then False else isAllDigit s)"

definition userIDFromString :: "Env \<Rightarrow> string \<Rightarrow> string" where
  "userIDFromString env v =
     (if v = '''' \<or> isAllDigit v then v
      else (case user_Lookup env v of Inl err \<Rightarrow> '''' | Inr u \<Rightarrow> Uid u))"

definition connCanFetchCerts :: "Env \<Rightarrow> ConnIdentity \<Rightarrow> bool" where
  "connCanFetchCerts env ci =
     (if IsUnixSock ci \<and> Creds ci \<noteq> None then
        (case Creds_UserID (the (Creds ci)) of
           (connUID, ok) \<Rightarrow>
             if ok \<and> connUID = userIDFromString env (TS_PERMIT_CERT_UID env) then True
             else False)
      else False)"

subsection \<open>Lifecycle\<close>

definition New :: "Env \<Rightarrow> Server" where
  "New env =
     \<lparr>lb = None, resetOnZero = (GOOS env = ''windows''), startBackendOnce = False,
      runCalled = False, lastUserID = '''', activeReqs = []\<rparr>"

text \<open>\<open>b.startBackendOnce.Do(f)\<close> runs \<open>f\<close> unless the once is done, and marks it done.\<close>

definition startBackendIfNeeded :: "Server \<Rightarrow> Server \<times> event list" where
  "startBackendIfNeeded s =
     (if \<not> runCalled s then (s, [])
      else
        (case lb s of
           None \<Rightarrow> (s, [])
         | Some b \<Rightarrow>
            if Prefs_Valid b then
              (if startBackendOnce s then (s, [])
               else (s\<lparr>startBackendOnce := True\<rparr>, [Start]))
            else (s, [])))"

text \<open>\<open>s.lb.CompareAndSwap(nil, lb)\<close> succeeds exactly when the pointer is nil.\<close>

definition SetLocalBackend :: "LocalBackend option \<Rightarrow> Server \<Rightarrow> unit go \<times> Server \<times> event list" where
  "SetLocalBackend b_ptr s =
     (case b_ptr of
        None \<Rightarrow> (Panic ''nil LocalBackend'', s, [])
      | Some b \<Rightarrow>
         (case lb s of
            Some old \<Rightarrow> (Panic ''already set'', s, [])
          | None \<Rightarrow>
             (case startBackendIfNeeded (s\<lparr>lb := Some b\<rparr>) of
                (s', evs) \<Rightarrow> (Return (), s', evs))))"

text \<open>
  \<open>Run\<close>, from its first statement to the call \<open>hs.Serve(ln)\<close>, during which requests
  are served: it stores \<open>runCalled\<close> and calls \<open>startBackendIfNeeded\<close>. The listener, the
  goroutine that closes it and \<open>systemd.Ready\<close> do not touch the \<open>Server\<close>.
  \<open>Run_deferred\<close> is the deferred function that runs when \<open>Run\<close> returns.
\<close>

definition Run :: "Server \<Rightarrow> Server \<times> event list" where
  "Run s = startBackendIfNeeded (s\<lparr>runCalled := True\<rparr>)"

definition Run_deferred :: "Server \<Rightarrow> event list" where
  "Run_deferred s = (case lb s of None \<Rightarrow> [] | Some b \<Rightarrow> [Shutdown])"

text \<open>
  A history of lifecycle calls on one server, in the order they happen. A panic ends the
  history: the process dies.
\<close>

datatype lifecycle_call = Call_SetLocalBackend "LocalBackend option" | Call_Run

fun lifecycle :: "lifecycle_call list \<Rightarrow> Server \<Rightarrow> unit go \<times> Server \<times> event list" where
  "lifecycle [] s = (Return (), s, [])"
| "lifecycle (Call_Run # cs) s =
     (case Run s of
        (s', evs) \<Rightarrow> (case lifecycle cs s' of (r, s'', evs') \<Rightarrow> (r, s'', evs @ evs')))"
| "lifecycle (Call_SetLocalBackend b_ptr # cs) s =
     (case SetLocalBackend b_ptr s of
        (Panic m, s', evs) \<Rightarrow> (Panic m, s', evs)
      | (Return u, s', evs) \<Rightarrow>
          (case lifecycle cs s' of (r, s'', evs') \<Rightarrow> (r, s'', evs @ evs')))"

section \<open>Notions used in the statements\<close>

text \<open>How often the backend is started, and how often it is reset, in a list of events.\<close>

definition starts :: "event list \<Rightarrow> nat" where
  "starts evs = length (filter (\<lambda>e. e = Start) evs)"

definition resets :: "event list \<Rightarrow> nat" where
  "resets evs = length (filter (\<lambda>e. e = ResetForClientDisconnect) evs)"

text \<open>
  The three conditions of \<open>startBackendIfNeeded\<close>: \<open>Run\<close> has been called, the backend
  is bound, and its \<open>Prefs()\<close> are valid.
\<close>

definition readyToStart :: "Server \<Rightarrow> bool" where
  "readyToStart s =
     (runCalled s \<and> (case lb s of None \<Rightarrow> False | Some b \<Rightarrow> Prefs_Valid b))"

subsection \<open>Identities of one platform, and the tracker's invariant\<close>

text \<open>
  The resolver of the running platform: the build tag selects the file of
  \<open>getConnIdentity\<close>.
\<close>

definition resolve :: "Env \<Rightarrow> net_Conn \<Rightarrow> ConnIdentity \<times> string option" where
  "resolve env c =
     (if GOOS env = ''windows'' then getConnIdentity_windows c else getConnIdentity c)"

text \<open>
  What the resolver of the platform guarantees of an identity it returns without error:
  on Windows the \<open>User\<close> is resolved, elsewhere there is no Windows user id.
\<close>

definition wfIdentity :: "Env \<Rightarrow> ConnIdentity \<Rightarrow> bool" where
  "wfIdentity env ci =
     (if GOOS env = ''windows'' then User ci \<noteq> None else WindowsUserID ci = '''')"

text \<open>
  The invariant of the session tracker: the map has one entry per request; requests are
  active only once a backend is bound; every active identity is non-nil and of the
  platform; all active identities have the same user id; and that user id, unless
  empty, is the recorded \<open>lastUserID\<close>.
\<close>

definition trackerInv :: "Env \<Rightarrow> Server \<Rightarrow> bool" where
  "trackerInv env s =
     (distinct (map fst (activeReqs s))
      \<and> (activeReqs s = [] \<or> lb s \<noteq> None)
      \<and> list_all
           (\<lambda>a. case a of
                  None \<Rightarrow> False
                | Some i \<Rightarrow>
                   wfIdentity env i
                   \<and> (WindowsUserID i = '''' \<or> lastUserID s = WindowsUserID i)
                   \<and> list_all
                        (\<lambda>a'. case a' of
                                None \<Rightarrow> False
                              | Some i' \<Rightarrow> WindowsUserID i' = WindowsUserID i)
                        (map snd (activeReqs s)))
           (map snd (activeReqs s)))"

text \<open>
  The states a server goes through: created by \<open>New\<close>, then any sequence of successful
  binds, \<open>Run\<close>, registrations of identities that the platform's resolver returned, and
  completions of requests.
\<close>

inductive reachable :: "Env \<Rightarrow> Server \<Rightarrow> bool" for env :: Env where
  reach_New: "reachable env (New env)"
| reach_SetLocalBackend:
    "reachable env s \<Longrightarrow> SetLocalBackend (Some b) s = (Return (), s', evs) \<Longrightarrow> reachable env s'"
| reach_Run:
    "reachable env s \<Longrightarrow> Run s = (s', evs) \<Longrightarrow> reachable env s'"
| reach_add:
    "reachable env s \<Longrightarrow> resolve env c = (ci, None)
     \<Longrightarrow> addActiveHTTPRequest s pick req (Some ci) = (Return None, s', evs)
     \<Longrightarrow> reachable env s'"
| reach_onDone:
    "reachable env s \<Longrightarrow> lb s = Some b \<Longrightarrow> onDone b req s = (s', evs) \<Longrightarrow> reachable env s'"

code_pred reachable .

subsection \<open>Example values\<close>

definition ex_conn :: net_Conn where
  "ex_conn =
     \<lparr>isUnixConn = True, peercred_Get = Inl ''not implemented'', Handle = None,
      GetNamedPipeClientProcessId_Call = (0, 0, ''''), pidowner_OwnerOfPID = Inl '''',
      lookupUserFromID = Inl ''''\<rparr>"

definition ex_backend :: LocalBackend where
  "ex_backend =
     \<lparr>Prefs_Valid = True, InServerMode = False, OperatorUserID = ''1000'',
      CheckIPNConnectionAllowed = (\<lambda>ci. None)\<rparr>"

definition ex_windows :: Env where
  "ex_windows =
     \<lparr>GOOS = ''windows'', TS_PERMIT_CERT_UID = '''',
      user_Lookup = (\<lambda>v. Inl ''unknown user'')\<rparr>"

definition ex_linux :: Env where
  "ex_linux =
     \<lparr>GOOS = ''linux'', TS_PERMIT_CERT_UID = '''',
      user_Lookup = (\<lambda>v. if v = ''caddy'' then Inr \<lparr>Uid = ''998'', Username = ''caddy''\<rparr>
                         else Inl ''unknown user'')\<rparr>"

text \<open>Two named-pipe connections, of the processes of two Windows users.\<close>

definition ex_pipe_alice :: net_Conn where
  "ex_pipe_alice =
     \<lparr>isUnixConn = False, peercred_Get = Inl ''not implemented'', Handle = Some 7,
      GetNamedPipeClientProcessId_Call = (1, 4242, ''''),
      pidowner_OwnerOfPID = Inr ''S-1-5-21-1001'',
      lookupUserFromID = Inr \<lparr>Uid = ''S-1-5-21-1001'', Username = ''alice''\<rparr>\<rparr>"

definition ex_pipe_bob :: net_Conn where
  "ex_pipe_bob =
     \<lparr>isUnixConn = False, peercred_Get = Inl ''not implemented'', Handle = Some 8,
      GetNamedPipeClientProcessId_Call = (1, 5151, ''''),
      pidowner_OwnerOfPID = Inr ''S-1-5-21-1002'',
      lookupUserFromID = Inr \<lparr>Uid = ''S-1-5-21-1002'', Username = ''bob''\<rparr>\<rparr>"

definition ex_alice :: ConnIdentity where
  "ex_alice = fst (getConnIdentity_windows ex_pipe_alice)"

definition ex_bob :: ConnIdentity where
  "ex_bob = fst (getConnIdentity_windows ex_pipe_bob)"

text \<open>A unix socket connection whose peer has uid 1000, and its identity.\<close>

definition ex_unix_1000 :: net_Conn where
  "ex_unix_1000 =
     \<lparr>isUnixConn = True, peercred_Get = Inr \<lparr>Creds_UserID = (''1000'', True)\<rparr>, Handle = None,
      GetNamedPipeClientProcessId_Call = (0, 0, ''''), pidowner_OwnerOfPID = Inl '''',
      lookupUserFromID = Inl ''''\<rparr>"

definition ex_uid_1000 :: ConnIdentity where
  "ex_uid_1000 = fst (getConnIdentity ex_unix_1000)"

text \<open>
  A Windows server with the backend bound, idle; and the same server while request 1 of
  alice is active.
\<close>

definition ex_idle :: Server where
  "ex_idle = (New ex_windows)\<lparr>lb := Some ex_backend\<rparr>"

definition ex_busy :: Server where
  "ex_busy = ex_idle\<lparr>lastUserID := ''S-1-5-21-1001'', activeReqs := [(1, Some ex_alice)]\<rparr>"


definition ex_linux_server :: Server where
  "ex_linux_server = (New ex_linux)\<lparr>lb := Some ex_backend\<rparr>"

text \<open>
  The Windows server after alice's last request has completed; and a named-pipe
  connection for whose process \<open>pidowner.OwnerOfPID\<close> answers the empty string.
\<close>

definition ex_after_alice :: Server where
  "ex_after_alice = ex_idle\<lparr>lastUserID := ''S-1-5-21-1001''\<rparr>"

definition ex_pipe_anon :: net_Conn where
  "ex_pipe_anon =
     \<lparr>isUnixConn = False, peercred_Get = Inl ''not implemented'', Handle = Some 9,
      GetNamedPipeClientProcessId_Call = (1, 6060, ''''),
      pidowner_OwnerOfPID = Inr '''',
      lookupUserFromID = Inr \<lparr>Uid = '''', Username = ''''\<rparr>\<rparr>"

definition ex_anon :: ConnIdentity where
  "ex_anon = fst (getConnIdentity_windows ex_pipe_anon)"









section \<open>Lifecycle: auxiliary facts\<close>

lemma startBackendIfNeeded_lb [simp]: "lb (fst (startBackendIfNeeded s)) = lb s"
  by (simp add: startBackendIfNeeded_def split: option.splits)

lemma Run_lb [simp]: "lb (fst (Run s)) = lb s"
  by (simp add: Run_def)

lemma SetLocalBackend_bound:
  "lb s = Some old \<Longrightarrow> SetLocalBackend p s = (Panic (if p = None then ''nil LocalBackend'' else ''already set''), s, [])"
  by (simp add: SetLocalBackend_def split: option.splits)

lemma lifecycle_bound_keeps:
  "lb s = Some b \<Longrightarrow> lifecycle cs s = (r, s', evs) \<Longrightarrow> lb s' = Some b"
proof (induction cs arbitrary: s r s' evs)
  case Nil
  then show ?case by simp
next
  case (Cons c cs)
  show ?case
  proof (cases c)
    case (Call_SetLocalBackend p)
    with Cons.prems show ?thesis
      by (simp add: SetLocalBackend_bound)
  next
    case Call_Run
    obtain s1 e1 where r: "Run s = (s1, e1)" by (cases "Run s")
    then have "lb s1 = Some b" using Run_lb[of s] Cons.prems(1) by simp
    with Cons.IH[of s1] Cons.prems r Call_Run show ?thesis
      by (auto split: prod.splits)
  qed
qed

lemma lifecycle_second_bind_panics:
  "lb s = Some b \<Longrightarrow> \<exists>m s' evs. lifecycle (cs @ [Call_SetLocalBackend p]) s = (Panic m, s', evs)"
proof (induction cs arbitrary: s)
  case Nil
  then show ?case by (simp add: SetLocalBackend_bound)
next
  case (Cons c cs)
  show ?case
  proof (cases c)
    case (Call_SetLocalBackend q)
    with Cons.prems show ?thesis
      by (simp add: SetLocalBackend_bound)
  next
    case Call_Run
    obtain s1 e1 where r: "Run s = (s1, e1)" by (cases "Run s")
    then have "lb s1 = Some b" using Run_lb[of s] Cons.prems(1) by simp
    from Cons.IH[OF this] obtain m s' evs where
      "lifecycle (cs @ [Call_SetLocalBackend p]) s1 = (Panic m, s', evs)" by blast
    with r Call_Run show ?thesis by simp
  qed
qed

lemma starts_append [simp]: "starts (xs @ ys) = starts xs + starts ys"
  by (simp add: starts_def)

lemma Run_step:
  assumes "startBackendOnce s = readyToStart s" and "Run s = (s', evs)"
  shows "startBackendOnce s' = readyToStart s'
         \<and> starts evs + (if startBackendOnce s then 1 else 0) = (if startBackendOnce s' then 1 else 0)"
  using assms
  by (auto simp: Run_def startBackendIfNeeded_def readyToStart_def starts_def
           split: option.splits if_splits)

lemma SetLocalBackend_step:
  assumes "startBackendOnce s = readyToStart s" and "SetLocalBackend p s = (r, s', evs)"
  shows "startBackendOnce s' = readyToStart s'
         \<and> starts evs + (if startBackendOnce s then 1 else 0) = (if startBackendOnce s' then 1 else 0)"
  using assms
  by (auto simp: SetLocalBackend_def startBackendIfNeeded_def readyToStart_def starts_def
           split: option.splits if_splits)

lemma lifecycle_starts:
  "startBackendOnce s = readyToStart s \<Longrightarrow> lifecycle cs s = (r, s', evs) \<Longrightarrow>
   startBackendOnce s' = readyToStart s'
   \<and> starts evs + (if startBackendOnce s then 1 else 0) = (if startBackendOnce s' then 1 else 0)"
proof (induction cs arbitrary: s r s' evs)
  case Nil
  then show ?case by (simp add: starts_def)
next
  case (Cons c cs)
  show ?case
  proof (cases c)
    case Call_Run
    obtain s1 e1 where r1: "Run s = (s1, e1)" by (cases "Run s")
    obtain r2 s2 e2 where r2: "lifecycle cs s1 = (r2, s2, e2)" by (cases "lifecycle cs s1")
    from Run_step[OF Cons.prems(1) r1] have a: "startBackendOnce s1 = readyToStart s1"
      and b: "starts e1 + (if startBackendOnce s then 1 else 0) = (if startBackendOnce s1 then 1 else 0)"
      by simp_all
    from Cons.IH[OF a r2] have c: "startBackendOnce s2 = readyToStart s2"
      and d: "starts e2 + (if startBackendOnce s1 then 1 else 0) = (if startBackendOnce s2 then 1 else 0)"
      by simp_all
    from Cons.prems(2) Call_Run r1 r2 have "s' = s2" "evs = e1 @ e2" by simp_all
    with b c d show ?thesis by (simp split: if_splits)
  next
    case (Call_SetLocalBackend p)
    obtain r1 s1 e1 where r1: "SetLocalBackend p s = (r1, s1, e1)"
      by (cases "SetLocalBackend p s")
    from SetLocalBackend_step[OF Cons.prems(1) r1] have a: "startBackendOnce s1 = readyToStart s1"
      and b: "starts e1 + (if startBackendOnce s then 1 else 0) = (if startBackendOnce s1 then 1 else 0)"
      by simp_all
    show ?thesis
    proof (cases r1)
      case (Panic m)
      with Cons.prems(2) Call_SetLocalBackend r1 have "s' = s1" "evs = e1" by simp_all
      with a b show ?thesis by simp
    next
      case (Return u)
      obtain r2 s2 e2 where r2: "lifecycle cs s1 = (r2, s2, e2)" by (cases "lifecycle cs s1")
      from Cons.IH[OF a r2] have c: "startBackendOnce s2 = readyToStart s2"
        and d: "starts e2 + (if startBackendOnce s1 then 1 else 0) = (if startBackendOnce s2 then 1 else 0)"
        by simp_all
      from Cons.prems(2) Call_SetLocalBackend r1 r2 Return have "s' = s2" "evs = e1 @ e2" by simp_all
      with b c d show ?thesis by (simp split: if_splits)
    qed
  qed
qed

lemma New_not_ready: "startBackendOnce (New env) = readyToStart (New env)"
  by (simp add: New_def readyToStart_def)

section \<open>Session tracker: auxiliary facts\<close>

lemma set_delete_subset: "set (delete k m) \<subseteq> set m"
  by (induction k m rule: delete.induct) auto

lemma delete_Nil_iff: "delete k m = [] \<longleftrightarrow> fst ` set m \<subseteq> {k}"
  by (induction k m rule: delete.induct) auto

lemma mak_Set_not_Nil: "mak_Set k v m \<noteq> []"
  by (induction k v m rule: mak_Set.induct) auto

lemma set_mak_Set: "set (mak_Set k v m) \<subseteq> insert (k, v) (set m)"
  by (induction k v m rule: mak_Set.induct) auto

lemma mak_Set_member: "(k, v) \<in> set (mak_Set k v m)"
  by (induction k v m rule: mak_Set.induct) auto

lemma sameUserCheck_error_kind:
  "sameUserCheck s pick ci = Return (Some err) \<Longrightarrow> \<exists>w. err = inUseOtherUserError w"
  unfolding sameUserCheck_def
  by (cases "range_first pick (activeReqs s)"; cases "User (the (range_first pick (activeReqs s)))")
     (auto split: if_splits)

lemma policyCheck_error_kind:
  "policyCheck s ci = Return (Some err) \<Longrightarrow> \<exists>w. err = inUseOtherUserError w"
  unfolding policyCheck_def mustBackend_def
  by (cases "lb s"; cases "CheckIPNConnectionAllowed (the (lb s)) ci") auto

lemma checkConnIdentityLocked_error_kind:
  assumes "checkConnIdentityLocked s pick ci = Return (Some err)"
  shows "\<exists>w. err = inUseOtherUserError w"
proof (cases "sameUserCheck s pick ci")
  case (Panic m)
  with assms show ?thesis by (simp add: checkConnIdentityLocked_def)
next
  case (Return e)
  show ?thesis
  proof (cases e)
    case None
    with assms Return have "policyCheck s ci = Return (Some err)"
      by (simp add: checkConnIdentityLocked_def)
    then show ?thesis by (rule policyCheck_error_kind)
  next
    case (Some e')
    with assms Return have "sameUserCheck s pick ci = Return (Some err)"
      by (simp add: checkConnIdentityLocked_def)
    then show ?thesis by (rule sameUserCheck_error_kind)
  qed
qed

subsection \<open>The example values, evaluated\<close>

lemma ex_alice_eq:
  "ex_alice =
     \<lparr>Conn = ex_pipe_alice, NotWindows = False, IsUnixSock = False, Creds = None, Pid = 4242,
      UserID = ''S-1-5-21-1001'',
      User = Some \<lparr>Uid = ''S-1-5-21-1001'', Username = ''alice''\<rparr>\<rparr>"
  by (simp add: ex_alice_def getConnIdentity_windows_def getNamedPipeClientProcessId_def
                connIdentity_zero_def ex_pipe_alice_def)

lemma ex_bob_eq:
  "ex_bob =
     \<lparr>Conn = ex_pipe_bob, NotWindows = False, IsUnixSock = False, Creds = None, Pid = 5151,
      UserID = ''S-1-5-21-1002'',
      User = Some \<lparr>Uid = ''S-1-5-21-1002'', Username = ''bob''\<rparr>\<rparr>"
  by (simp add: ex_bob_def getConnIdentity_windows_def getNamedPipeClientProcessId_def
                connIdentity_zero_def ex_pipe_bob_def)

lemma ex_uid_1000_eq:
  "ex_uid_1000 =
     \<lparr>Conn = ex_unix_1000, NotWindows = True, IsUnixSock = True,
      Creds = Some \<lparr>Creds_UserID = (''1000'', True)\<rparr>, Pid = 0, UserID = '''', User = None\<rparr>"
  by (simp add: ex_uid_1000_def getConnIdentity_def connIdentity_zero_def ex_unix_1000_def)

lemma ex_busy_reached:
  "addActiveHTTPRequest ex_idle pick 1 (Some ex_alice) =
     (Return None, ex_busy,
      [MuLock, ActiveSet 1, SetCurrentUserID ''S-1-5-21-1001'', MuUnlock])"
  by (simp add: addActiveHTTPRequest_def mustBackend_def checkConnIdentityLocked_def
                sameUserCheck_def policyCheck_def ex_idle_def ex_busy_def New_def
                ex_backend_def ex_alice_eq Let_def)

lemma ex_busy_rejects_bob:
  "addActiveHTTPRequest ex_busy pick 2 (Some ex_bob) =
     (Return (Some (inUseOtherUserError (AlreadyInUseBy ''alice'' 4242))), ex_busy,
      [MuLock, MuUnlock])"
  by (simp add: addActiveHTTPRequest_def mustBackend_def checkConnIdentityLocked_def
                sameUserCheck_def policyCheck_def range_first_def ex_idle_def ex_busy_def
                New_def ex_backend_def ex_alice_eq ex_bob_eq)

subsection \<open>The invariant\<close>

lemma trackerInv_entry:
  assumes "trackerInv env s" and "(r, a) \<in> set (activeReqs s)"
  shows "\<exists>i. a = Some i \<and> wfIdentity env i
             \<and> (WindowsUserID i = '''' \<or> lastUserID s = WindowsUserID i)"
proof -
  from assms(2) have "a \<in> set (map snd (activeReqs s))" by force
  with assms(1) have
    "case a of None \<Rightarrow> False
     | Some i \<Rightarrow> wfIdentity env i
         \<and> (WindowsUserID i = '''' \<or> lastUserID s = WindowsUserID i)
         \<and> list_all (\<lambda>a'. case a' of None \<Rightarrow> False
                               | Some i' \<Rightarrow> WindowsUserID i' = WindowsUserID i)
              (map snd (activeReqs s))"
    unfolding trackerInv_def list_all_iff by blast
  then show ?thesis by (cases a) simp_all
qed

lemma trackerInv_same:
  assumes "trackerInv env s" and "(r, Some i) \<in> set (activeReqs s)"
    and "(r', Some i') \<in> set (activeReqs s)"
  shows "WindowsUserID i' = WindowsUserID i"
proof -
  from assms(2) have "Some i \<in> set (map snd (activeReqs s))" by force
  with assms(1) have
    "case Some i of None \<Rightarrow> False
     | Some i \<Rightarrow> wfIdentity env i
         \<and> (WindowsUserID i = '''' \<or> lastUserID s = WindowsUserID i)
         \<and> list_all (\<lambda>a'. case a' of None \<Rightarrow> False
                               | Some i' \<Rightarrow> WindowsUserID i' = WindowsUserID i)
              (map snd (activeReqs s))"
    unfolding trackerInv_def list_all_iff by blast
  then have all: "\<forall>a' \<in> set (map snd (activeReqs s)).
                    case a' of None \<Rightarrow> False | Some i' \<Rightarrow> WindowsUserID i' = WindowsUserID i"
    by (simp add: list_all_iff)
  from assms(3) have "Some i' \<in> set (map snd (activeReqs s))" by force
  with all have "case Some i' of None \<Rightarrow> False | Some i' \<Rightarrow> WindowsUserID i' = WindowsUserID i"
    by blast
  then show ?thesis by simp
qed

lemma trackerInv_bound: "trackerInv env s \<Longrightarrow> activeReqs s \<noteq> [] \<Longrightarrow> lb s \<noteq> None"
  by (simp add: trackerInv_def)

lemma trackerInv_distinct: "trackerInv env s \<Longrightarrow> distinct (map fst (activeReqs s))"
  by (simp add: trackerInv_def)

lemma trackerInvI:
  assumes "distinct (map fst (activeReqs s))"
    and "activeReqs s = [] \<or> lb s \<noteq> None"
    and entry: "\<And>r a. (r, a) \<in> set (activeReqs s) \<Longrightarrow>
           \<exists>i. a = Some i \<and> wfIdentity env i
               \<and> (WindowsUserID i = '''' \<or> lastUserID s = WindowsUserID i)"
    and same: "\<And>r i r' i'. (r, Some i) \<in> set (activeReqs s) \<Longrightarrow> (r', Some i') \<in> set (activeReqs s)
           \<Longrightarrow> WindowsUserID i' = WindowsUserID i"
  shows "trackerInv env s"
proof -
  have "case a of None \<Rightarrow> False
     | Some i \<Rightarrow> wfIdentity env i
         \<and> (WindowsUserID i = '''' \<or> lastUserID s = WindowsUserID i)
         \<and> list_all (\<lambda>a'. case a' of None \<Rightarrow> False
                               | Some i' \<Rightarrow> WindowsUserID i' = WindowsUserID i)
              (map snd (activeReqs s))"
    if "a \<in> set (map snd (activeReqs s))" for a
  proof -
    from that obtain r where ra: "(r, a) \<in> set (activeReqs s)" by auto
    from entry [OF ra] obtain i where i: "a = Some i" "wfIdentity env i"
      "WindowsUserID i = '''' \<or> lastUserID s = WindowsUserID i" by blast
    have "case a' of None \<Rightarrow> False | Some i' \<Rightarrow> WindowsUserID i' = WindowsUserID i"
      if "a' \<in> set (map snd (activeReqs s))" for a'
    proof -
      from that obtain r' where ra': "(r', a') \<in> set (activeReqs s)" by auto
      from entry [OF ra'] obtain i' where i': "a' = Some i'" by blast
      with same [of r i r' i'] ra ra' i(1) show ?thesis by simp
    qed
    then have "list_all (\<lambda>a'. case a' of None \<Rightarrow> False
                               | Some i' \<Rightarrow> WindowsUserID i' = WindowsUserID i)
              (map snd (activeReqs s))"
      unfolding list_all_iff by blast
    with i show ?thesis by simp
  qed
  then have "list_all
           (\<lambda>a. case a of
                  None \<Rightarrow> False
                | Some i \<Rightarrow>
                   wfIdentity env i
                   \<and> (WindowsUserID i = '''' \<or> lastUserID s = WindowsUserID i)
                   \<and> list_all
                        (\<lambda>a'. case a' of
                                None \<Rightarrow> False
                              | Some i' \<Rightarrow> WindowsUserID i' = WindowsUserID i)
                        (map snd (activeReqs s)))
           (map snd (activeReqs s))"
    unfolding list_all_iff by blast
  with assms(1,2) show ?thesis unfolding trackerInv_def by blast
qed

lemma range_first_mem:
  assumes "m \<noteq> []"
  shows "\<exists>k. (k, range_first pick m) \<in> set m"
proof -
  from assms have "pick mod length m < length m" by simp
  then have "m ! (pick mod length m) \<in> set m" by (rule nth_mem)
  then have "(fst (m ! (pick mod length m)), range_first pick m) \<in> set m"
    by (simp add: range_first_def)
  then show ?thesis ..
qed

lemma distinct_mak_Set:
  "distinct (map fst m) \<Longrightarrow> distinct (map fst (mak_Set k v m))"
proof (induction k v m rule: mak_Set.induct)
  case (1 k v)
  then show ?case by simp
next
  case (2 k v k' v' m)
  have "fst ` set (mak_Set k v m) \<subseteq> insert k (fst ` set m)"
    using set_mak_Set [of k v m] by force
  with 2 show ?case by auto
qed

lemma distinct_delete:
  "distinct (map fst m) \<Longrightarrow> distinct (map fst (delete k m))"
proof (induction k m rule: delete.induct)
  case (1 k)
  then show ?case by simp
next
  case (2 k k' v' m)
  have "fst ` set (delete k m) \<subseteq> fst ` set m"
    using set_delete_subset [of k m] by force
  with 2 show ?case by auto
qed

lemma sameUserCheck_conflict:
  assumes inv: "trackerInv env s" and act: "(r, Some a) \<in> set (activeReqs s)"
    and wf: "wfIdentity env ci" and differ: "WindowsUserID ci \<noteq> WindowsUserID a"
  shows "\<exists>r' a' u. (r', Some a') \<in> set (activeReqs s)
           \<and> WindowsUserID a' = WindowsUserID a \<and> User a' = Some u
           \<and> sameUserCheck s pick ci =
               Return (Some (inUseOtherUserError (AlreadyInUseBy (Username u) (Pid a'))))"
proof -
  from act have nonempty: "activeReqs s \<noteq> []" by auto
  from range_first_mem [OF nonempty] obtain r' where
    picked: "(r', range_first pick (activeReqs s)) \<in> set (activeReqs s)" by blast
  from trackerInv_entry [OF inv picked] obtain a' where
    a': "range_first pick (activeReqs s) = Some a'" and wfa': "wfIdentity env a'" by blast
  from picked a' have mem: "(r', Some a') \<in> set (activeReqs s)" by simp
  from trackerInv_same [OF inv act mem] have same: "WindowsUserID a' = WindowsUserID a" .
  from trackerInv_entry [OF inv act] have wfa: "wfIdentity env a" by blast
  have "GOOS env = ''windows''"
  proof (rule ccontr)
    assume "GOOS env \<noteq> ''windows''"
    with wf wfa have "WindowsUserID ci = ''''" "WindowsUserID a = ''''"
      by (simp_all add: wfIdentity_def)
    with differ show False by simp
  qed
  with wfa' obtain u where u: "User a' = Some u" by (auto simp: wfIdentity_def)
  from nonempty a' same differ u
  have "sameUserCheck s pick ci =
          Return (Some (inUseOtherUserError (AlreadyInUseBy (Username u) (Pid a'))))"
    by (simp add: sameUserCheck_def)
  with mem same u show ?thesis by blast
qed

lemma sameUserCheck_pass:
  assumes inv: "trackerInv env s" and act: "(r, Some a) \<in> set (activeReqs s)"
    and pass: "sameUserCheck s pick ci = Return None"
  shows "WindowsUserID ci = WindowsUserID a"
proof -
  from act have nonempty: "activeReqs s \<noteq> []" by auto
  from range_first_mem [OF nonempty] obtain r' where
    picked: "(r', range_first pick (activeReqs s)) \<in> set (activeReqs s)" by blast
  from trackerInv_entry [OF inv picked] obtain a' where
    a': "range_first pick (activeReqs s) = Some a'" by blast
  from picked a' have mem: "(r', Some a') \<in> set (activeReqs s)" by simp
  from trackerInv_same [OF inv act mem] have same: "WindowsUserID a' = WindowsUserID a" .
  have "WindowsUserID ci = WindowsUserID a'"
  proof (rule ccontr)
    assume "WindowsUserID ci \<noteq> WindowsUserID a'"
    with nonempty a' have "sameUserCheck s pick ci \<noteq> Return None"
      by (cases "User a'") (simp_all add: sameUserCheck_def)
    with pass show False by simp
  qed
  with same show ?thesis by simp
qed

lemma checkConnIdentityLocked_pass:
  "checkConnIdentityLocked s pick ci = Return None \<Longrightarrow> sameUserCheck s pick ci = Return None"
  by (cases "sameUserCheck s pick ci")
     (auto simp: checkConnIdentityLocked_def split: option.splits)

lemma addActiveHTTPRequest_success:
  assumes "addActiveHTTPRequest s pick req (Some ci) = (Return None, s', evs)"
  shows "checkConnIdentityLocked s pick ci = Return None \<and> lb s \<noteq> None
         \<and> s' = s\<lparr>lastUserID :=
                     (if WindowsUserID ci \<noteq> '''' \<and> length (mak_Set req (Some ci) (activeReqs s)) = 1
                      then WindowsUserID ci else lastUserID s),
                   activeReqs := mak_Set req (Some ci) (activeReqs s)\<rparr>
         \<and> evs = [MuLock, ActiveSet req]
                 @ (if WindowsUserID ci \<noteq> '''' \<and> length (mak_Set req (Some ci) (activeReqs s)) = 1
                    then [SetCurrentUserID (WindowsUserID ci)] else [])
                 @ [MuUnlock]
                 @ (if WindowsUserID ci \<noteq> '''' \<and> length (mak_Set req (Some ci) (activeReqs s)) = 1
                       \<and> lastUserID s \<noteq> WindowsUserID ci \<and> lastUserID s \<noteq> ''''
                    then [ResetForClientDisconnect] else [])"
proof (cases "mustBackend s")
  case (Panic m)
  with assms show ?thesis by (simp add: addActiveHTTPRequest_def)
next
  case (Return b)
  then have bound: "lb s \<noteq> None" by (auto simp: mustBackend_def split: option.splits)
  show ?thesis
  proof (cases "checkConnIdentityLocked s pick ci")
    case (Panic m)
    with assms Return show ?thesis by (simp add: addActiveHTTPRequest_def)
  next
    case chk: (Return e)
    show ?thesis
    proof (cases e)
      case (Some err)
      with assms Return chk show ?thesis by (simp add: addActiveHTTPRequest_def)
    next
      case None
      let ?m = "mak_Set req (Some ci) (activeReqs s)"
      consider (other) "\<not> (WindowsUserID ci \<noteq> '''' \<and> length ?m = 1)"
        | (same) "WindowsUserID ci \<noteq> ''''" "length ?m = 1" "lastUserID s = WindowsUserID ci"
        | (fresh) "WindowsUserID ci \<noteq> ''''" "length ?m = 1" "lastUserID s \<noteq> WindowsUserID ci"
            "lastUserID s = ''''"
        | (switch) "WindowsUserID ci \<noteq> ''''" "length ?m = 1" "lastUserID s \<noteq> WindowsUserID ci"
            "lastUserID s \<noteq> ''''"
        by blast
      then show ?thesis
      proof cases
        case other
        with assms Return chk None bound show ?thesis
          by (auto simp: addActiveHTTPRequest_def Let_def)
      next
        case same
        with assms Return chk None bound show ?thesis
          by (auto simp: addActiveHTTPRequest_def Let_def)
      next
        case fresh
        with assms Return chk None bound show ?thesis
          by (auto simp: addActiveHTTPRequest_def Let_def)
      next
        case switch
        with assms Return chk None bound show ?thesis
          by (auto simp: addActiveHTTPRequest_def Let_def)
      qed
    qed
  qed
qed

lemma trackerInv_New: "trackerInv env (New env)"
  by (simp add: trackerInv_def New_def)

lemma startBackendIfNeeded_tracker:
  "activeReqs (fst (startBackendIfNeeded s)) = activeReqs s
   \<and> lastUserID (fst (startBackendIfNeeded s)) = lastUserID s"
  by (simp add: startBackendIfNeeded_def split: option.splits)

lemma trackerInv_cong:
  assumes "trackerInv env s" and "activeReqs s' = activeReqs s"
    and "lastUserID s' = lastUserID s" and "lb s \<noteq> None \<longrightarrow> lb s' \<noteq> None"
  shows "trackerInv env s'"
  using assms unfolding trackerInv_def by auto

lemma trackerInv_Run:
  assumes "trackerInv env s" and "Run s = (s', evs)"
  shows "trackerInv env s'"
proof -
  from assms(2) have s': "s' = fst (startBackendIfNeeded (s\<lparr>runCalled := True\<rparr>))"
    by (simp add: Run_def)
  show ?thesis
  proof (rule trackerInv_cong [OF assms(1)])
    show "activeReqs s' = activeReqs s"
      using startBackendIfNeeded_tracker [of "s\<lparr>runCalled := True\<rparr>"] s' by simp
    show "lastUserID s' = lastUserID s"
      using startBackendIfNeeded_tracker [of "s\<lparr>runCalled := True\<rparr>"] s' by simp
    show "lb s \<noteq> None \<longrightarrow> lb s' \<noteq> None"
      using startBackendIfNeeded_lb [of "s\<lparr>runCalled := True\<rparr>"] s' by simp
  qed
qed

lemma trackerInv_SetLocalBackend:
  assumes "trackerInv env s" and "SetLocalBackend p s = (r, s', evs)"
  shows "trackerInv env s'"
proof (cases "\<exists>b. p = Some b \<and> lb s = None")
  case False
  with assms(2) have "s' = s" by (auto simp: SetLocalBackend_def split: option.splits)
  with assms(1) show ?thesis by simp
next
  case True
  then obtain b where b: "p = Some b" "lb s = None" by blast
  with assms(2) have s': "s' = fst (startBackendIfNeeded (s\<lparr>lb := Some b\<rparr>))"
    by (auto simp: SetLocalBackend_def split: prod.splits)
  show ?thesis
  proof (rule trackerInv_cong [OF assms(1)])
    show "activeReqs s' = activeReqs s"
      using startBackendIfNeeded_tracker [of "s\<lparr>lb := Some b\<rparr>"] s' by simp
    show "lastUserID s' = lastUserID s"
      using startBackendIfNeeded_tracker [of "s\<lparr>lb := Some b\<rparr>"] s' by simp
    show "lb s \<noteq> None \<longrightarrow> lb s' \<noteq> None"
      using startBackendIfNeeded_lb [of "s\<lparr>lb := Some b\<rparr>"] s' by simp
  qed
qed

lemma trackerInv_onDone:
  assumes inv: "trackerInv env s" and "onDone b req s = (s', evs)"
  shows "trackerInv env s'"
proof -
  from assms(2) have s': "s' = s\<lparr>activeReqs := delete req (activeReqs s)\<rparr>"
    by (simp add: onDone_def Let_def)
  have sub: "set (activeReqs s') \<subseteq> set (activeReqs s)"
    using set_delete_subset [of req "activeReqs s"] s' by simp
  show ?thesis
  proof (rule trackerInvI)
    show "distinct (map fst (activeReqs s'))"
      using trackerInv_distinct [OF inv] s' by (simp add: distinct_delete)
    show "activeReqs s' = [] \<or> lb s' \<noteq> None"
    proof (cases "activeReqs s' = []")
      case False
      with sub have "activeReqs s \<noteq> []" by auto
      with trackerInv_bound [OF inv] s' show ?thesis by simp
    qed simp
  next
    fix r a assume "(r, a) \<in> set (activeReqs s')"
    with sub have "(r, a) \<in> set (activeReqs s)" by blast
    from trackerInv_entry [OF inv this] s'
    show "\<exists>i. a = Some i \<and> wfIdentity env i
               \<and> (WindowsUserID i = '''' \<or> lastUserID s' = WindowsUserID i)" by simp
  next
    fix r i r' i'
    assume "(r, Some i) \<in> set (activeReqs s')" "(r', Some i') \<in> set (activeReqs s')"
    with sub have "(r, Some i) \<in> set (activeReqs s)" "(r', Some i') \<in> set (activeReqs s)"
      by blast+
    then show "WindowsUserID i' = WindowsUserID i" by (rule trackerInv_same [OF inv])
  qed
qed

lemma accepted_uid:
  assumes inv: "trackerInv env s"
    and ok: "addActiveHTTPRequest s pick req (Some ci) = (Return None, s', evs)"
    and act: "(r, Some a) \<in> set (activeReqs s)"
  shows "WindowsUserID ci = WindowsUserID a"
proof -
  from addActiveHTTPRequest_success [OF ok]
  have "checkConnIdentityLocked s pick ci = Return None" by blast
  then have "sameUserCheck s pick ci = Return None" by (rule checkConnIdentityLocked_pass)
  with inv act show ?thesis by (rule sameUserCheck_pass)
qed

lemma accepted_switch_idle:
  assumes inv: "trackerInv env s"
    and ok: "addActiveHTTPRequest s pick req (Some ci) = (Return None, s', evs)"
    and uid: "WindowsUserID ci \<noteq> ''''" "WindowsUserID ci \<noteq> lastUserID s"
  shows "activeReqs s = []"
proof (rule ccontr)
  assume "activeReqs s \<noteq> []"
  then obtain r a rest where "activeReqs s = (r, a) # rest"
    by (cases "activeReqs s") auto
  then have mem: "(r, a) \<in> set (activeReqs s)" by simp
  from trackerInv_entry [OF inv mem] obtain i where
    i: "a = Some i" "WindowsUserID i = '''' \<or> lastUserID s = WindowsUserID i" by blast
  from accepted_uid [OF inv ok] mem i(1) have "WindowsUserID ci = WindowsUserID i" by blast
  with i(2) uid show False by auto
qed

lemma trackerInv_add:
  assumes inv: "trackerInv env s" and wf: "wfIdentity env ci"
    and ok: "addActiveHTTPRequest s pick req (Some ci) = (Return None, s', evs)"
  shows "trackerInv env s'"
proof -
  let ?m = "mak_Set req (Some ci) (activeReqs s)"
  from addActiveHTTPRequest_success [OF ok] have bound: "lb s \<noteq> None"
    and s': "s' = s\<lparr>lastUserID :=
                     (if WindowsUserID ci \<noteq> '''' \<and> length ?m = 1
                      then WindowsUserID ci else lastUserID s),
                   activeReqs := ?m\<rparr>"
    by blast+
  have reqs: "activeReqs s' = ?m" and lb': "lb s' = lb s" using s' by simp_all
  have old: "WindowsUserID i = WindowsUserID ci \<and> wfIdentity env i"
    if "(r, Some i) \<in> set (activeReqs s)" for r i
    using accepted_uid [OF inv ok that] trackerInv_entry [OF inv that] by auto
  have last: "WindowsUserID ci = '''' \<or> lastUserID s' = WindowsUserID ci"
  proof (cases "WindowsUserID ci \<noteq> '''' \<and> lastUserID s \<noteq> WindowsUserID ci")
    case True
    then have "WindowsUserID ci \<noteq> ''''" "WindowsUserID ci \<noteq> lastUserID s" by auto
    then have "activeReqs s = []" by (rule accepted_switch_idle [OF inv ok])
    with s' True show ?thesis by simp
  next
    case False
    with s' show ?thesis by auto
  qed
  have new: "\<exists>i. a = Some i \<and> WindowsUserID i = WindowsUserID ci \<and> wfIdentity env i"
    if "(r, a) \<in> set (activeReqs s')" for r a
  proof -
    from that reqs set_mak_Set [of req "Some ci" "activeReqs s"]
    have "(r, a) = (req, Some ci) \<or> (r, a) \<in> set (activeReqs s)" by auto
    then show ?thesis
    proof
      assume "(r, a) = (req, Some ci)"
      with wf show ?thesis by simp
    next
      assume mem: "(r, a) \<in> set (activeReqs s)"
      from trackerInv_entry [OF inv mem] obtain i where "a = Some i" by blast
      with old mem show ?thesis by blast
    qed
  qed
  show ?thesis
  proof (rule trackerInvI)
    show "distinct (map fst (activeReqs s'))"
      using trackerInv_distinct [OF inv] reqs by (simp add: distinct_mak_Set)
    show "activeReqs s' = [] \<or> lb s' \<noteq> None" using bound lb' by simp
  next
    fix r a assume "(r, a) \<in> set (activeReqs s')"
    from new [OF this] last
    show "\<exists>i. a = Some i \<and> wfIdentity env i
               \<and> (WindowsUserID i = '''' \<or> lastUserID s' = WindowsUserID i)" by auto
  next
    fix r i r' i'
    assume "(r, Some i) \<in> set (activeReqs s')" "(r', Some i') \<in> set (activeReqs s')"
    from new [OF this(1)] new [OF this(2)]
    show "WindowsUserID i' = WindowsUserID i" by simp
  qed
qed

lemma resolve_wfIdentity:
  assumes "resolve env c = (ci, None)"
  shows "wfIdentity env ci"
proof (cases "GOOS env = ''windows''")
  case True
  with assms have "getConnIdentity_windows c = (ci, None)" by (simp add: resolve_def)
  then have "User ci \<noteq> None"
    by (auto simp: getConnIdentity_windows_def Let_def split: option.splits sum.splits)
  with True show ?thesis by (simp add: wfIdentity_def)
next
  case False
  with assms have "getConnIdentity c = (ci, None)" by (simp add: resolve_def)
  then have "WindowsUserID ci = ''''"
    by (auto simp: getConnIdentity_def connIdentity_zero_def Let_def)
  with False show ?thesis by (simp add: wfIdentity_def)
qed

lemma reachable_trackerInv: "reachable env s \<Longrightarrow> trackerInv env s"
proof (induction rule: reachable.induct)
  case reach_New
  show ?case by (rule trackerInv_New)
next
  case (reach_SetLocalBackend s b s' evs)
  then show ?case using trackerInv_SetLocalBackend by blast
next
  case (reach_Run s s' evs)
  then show ?case using trackerInv_Run by blast
next
  case (reach_add s c ci pick req s' evs)
  from reach_add.hyps(2) have "wfIdentity env ci" by (rule resolve_wfIdentity)
  from reach_add.IH this reach_add.hyps(3) show ?case by (rule trackerInv_add)
next
  case (reach_onDone s b req s' evs)
  then show ?case using trackerInv_onDone by blast
qed

subsection \<open>More example values, evaluated\<close>

lemma ex_anon_eq:
  "ex_anon =
     \<lparr>Conn = ex_pipe_anon, NotWindows = False, IsUnixSock = False, Creds = None, Pid = 6060,
      UserID = '''', User = Some \<lparr>Uid = '''', Username = ''''\<rparr>\<rparr>"
  by (simp add: ex_anon_def getConnIdentity_windows_def getNamedPipeClientProcessId_def
                connIdentity_zero_def ex_pipe_anon_def)

lemma ex_resolved:
  "resolve ex_windows ex_pipe_alice = (ex_alice, None)"
  "resolve ex_windows ex_pipe_bob = (ex_bob, None)"
  "resolve ex_windows ex_pipe_anon = (ex_anon, None)"
  by (simp_all add: resolve_def ex_windows_def ex_alice_def ex_bob_def ex_anon_def
                    getConnIdentity_windows_def getNamedPipeClientProcessId_def
                    ex_pipe_alice_def ex_pipe_bob_def ex_pipe_anon_def)

lemma ex_idle_reachable: "reachable ex_windows ex_idle"
proof -
  have "SetLocalBackend (Some ex_backend) (New ex_windows) = (Return (), ex_idle, [])"
    by (simp add: SetLocalBackend_def startBackendIfNeeded_def New_def ex_idle_def)
  with reach_New [of ex_windows] show ?thesis by (rule reach_SetLocalBackend)
qed

lemma ex_busy_reachable: "reachable ex_windows ex_busy"
  using ex_idle_reachable ex_resolved(1) ex_busy_reached [of 0] by (rule reach_add)

lemma ex_after_alice_reachable: "reachable ex_windows ex_after_alice"
proof -
  have "onDone ex_backend 1 ex_busy =
          (ex_after_alice, [MuLock, ActiveDelete 1, MuUnlock, ResetForClientDisconnect])"
    by (simp add: onDone_def ex_busy_def ex_after_alice_def ex_idle_def New_def ex_windows_def
                  ex_backend_def)
  moreover have "lb ex_busy = Some ex_backend" by (simp add: ex_busy_def ex_idle_def)
  ultimately show ?thesis using ex_busy_reachable by (blast intro: reach_onDone)
qed

lemma ex_alice_again:
  "addActiveHTTPRequest ex_busy 0 4 (Some ex_alice) =
     (Return None, ex_busy\<lparr>activeReqs := [(1, Some ex_alice), (4, Some ex_alice)]\<rparr>,
      [MuLock, ActiveSet 4, MuUnlock])"
  by (simp add: addActiveHTTPRequest_def mustBackend_def checkConnIdentityLocked_def
                sameUserCheck_def policyCheck_def range_first_def ex_busy_def ex_idle_def
                New_def ex_backend_def ex_alice_eq Let_def)

lemma ex_bob_after_alice:
  "addActiveHTTPRequest ex_after_alice 0 2 (Some ex_bob) =
     (Return None,
      ex_after_alice\<lparr>lastUserID := ''S-1-5-21-1002'', activeReqs := [(2, Some ex_bob)]\<rparr>,
      [MuLock, ActiveSet 2, SetCurrentUserID ''S-1-5-21-1002'', MuUnlock,
       ResetForClientDisconnect])"
  by (simp add: addActiveHTTPRequest_def mustBackend_def checkConnIdentityLocked_def
                sameUserCheck_def policyCheck_def ex_after_alice_def ex_idle_def
                New_def ex_backend_def ex_bob_eq Let_def)






section \<open>Permission calculator: auxiliary facts\<close>


lemma connCanFetchCerts_iff:
  "connCanFetchCerts env ci \<longleftrightarrow>
     IsUnixSock ci
     \<and> (\<exists>creds. Creds ci = Some creds
           \<and> Creds_UserID creds = (userIDFromString env (TS_PERMIT_CERT_UID env), True))"
proof (cases "Creds ci")
  case None
  then show ?thesis by (simp add: connCanFetchCerts_def)
next
  case (Some creds)
  obtain uid ok where u: "Creds_UserID creds = (uid, ok)" by (cases "Creds_UserID creds")
  with Some show ?thesis by (auto simp: connCanFetchCerts_def)
qed

lemma localAPIPermissions_unix:
  assumes "GOOS env \<noteq> ''windows''" and "GOOS env \<noteq> ''js''" and "lb s = Some b"
  shows "localAPIPermissions env s pick ci =
           Return (IsUnixSock ci, IsUnixSock ci \<and> \<not> IsReadonlyConn ci (OperatorUserID b))"
  using assms by (simp add: localAPIPermissions_def mustBackend_def)

lemma IsReadonlyConn_operator:
  assumes "Creds ci = Some creds" and "Creds_UserID creds = (u, True)" and "u \<noteq> ''''"
  shows "IsReadonlyConn ci u"
  using assms by (simp add: IsReadonlyConn_def)







section \<open>The claims\<close>

subsection \<open>Session tracker\<close>

text \<open>
  Claim C1. Single active user. In every state of the server that satisfies the tracker's
  invariant (every reachable state does, by \<open>reachable_trackerInv\<close>) and in which a
  request is active under some user id, \<open>addActiveHTTPRequest\<close> with an identity of the
  platform (every identity the resolver returns is one, by \<open>resolve_wfIdentity\<close>) whose
  user id differs returns the \<open>inUseOtherUserError\<close> that carries the \<open>Username\<close> and
  \<open>Pid\<close> of an active request of that user, whichever entry the map iteration visits
  first, and leaves the server unchanged: the request is not registered. This lasts as
  long as a request is active; once no request is active, an identity that the backend
  allows is registered, whatever its user id.
\<close>

theorem single_active_user:
  "(trackerInv env s \<and> (r, Some a) \<in> set (activeReqs s) \<and> wfIdentity env ci
      \<and> WindowsUserID ci \<noteq> WindowsUserID a \<longrightarrow>
      (\<exists>r' a' u. (r', Some a') \<in> set (activeReqs s)
          \<and> WindowsUserID a' = WindowsUserID a \<and> User a' = Some u
          \<and> addActiveHTTPRequest s pick req (Some ci) =
              (Return (Some (inUseOtherUserError (AlreadyInUseBy (Username u) (Pid a')))), s,
               [MuLock, MuUnlock])))
   \<and> (activeReqs s = [] \<and> lb s = Some b \<and> CheckIPNConnectionAllowed b ci = None \<longrightarrow>
        (\<exists>s' evs. addActiveHTTPRequest s pick req (Some ci) = (Return None, s', evs)
            \<and> activeReqs s' = [(req, Some ci)]))"
proof (intro conjI impI)
  assume h: "trackerInv env s \<and> (r, Some a) \<in> set (activeReqs s) \<and> wfIdentity env ci
      \<and> WindowsUserID ci \<noteq> WindowsUserID a"
  then have inv: "trackerInv env s" and act: "(r, Some a) \<in> set (activeReqs s)"
    and wf: "wfIdentity env ci" and differ: "WindowsUserID ci \<noteq> WindowsUserID a"
    by simp_all
  from act have "activeReqs s \<noteq> []" by auto
  with trackerInv_bound [OF inv] obtain b where bound: "lb s = Some b" by auto
  from sameUserCheck_conflict [OF inv act wf differ, of pick] obtain r' a' u where
    mem: "(r', Some a') \<in> set (activeReqs s)" and same: "WindowsUserID a' = WindowsUserID a"
    and u: "User a' = Some u"
    and chk: "sameUserCheck s pick ci =
               Return (Some (inUseOtherUserError (AlreadyInUseBy (Username u) (Pid a'))))"
    by blast
  from chk have "checkConnIdentityLocked s pick ci =
               Return (Some (inUseOtherUserError (AlreadyInUseBy (Username u) (Pid a'))))"
    by (simp add: checkConnIdentityLocked_def)
  with bound have "addActiveHTTPRequest s pick req (Some ci) =
              (Return (Some (inUseOtherUserError (AlreadyInUseBy (Username u) (Pid a')))), s,
               [MuLock, MuUnlock])"
    by (simp add: addActiveHTTPRequest_def mustBackend_def)
  with mem same u show "\<exists>r' a' u. (r', Some a') \<in> set (activeReqs s)
          \<and> WindowsUserID a' = WindowsUserID a \<and> User a' = Some u
          \<and> addActiveHTTPRequest s pick req (Some ci) =
              (Return (Some (inUseOtherUserError (AlreadyInUseBy (Username u) (Pid a')))), s,
               [MuLock, MuUnlock])"
    by blast
next
  assume idle: "activeReqs s = [] \<and> lb s = Some b \<and> CheckIPNConnectionAllowed b ci = None"
  then have "checkConnIdentityLocked s pick ci = Return None"
    by (simp add: checkConnIdentityLocked_def sameUserCheck_def policyCheck_def mustBackend_def)
  with idle have "fst (addActiveHTTPRequest s pick req (Some ci)) = Return None
     \<and> activeReqs (fst (snd (addActiveHTTPRequest s pick req (Some ci)))) = [(req, Some ci)]"
    by (simp add: addActiveHTTPRequest_def mustBackend_def Let_def)
  then show "\<exists>s' evs. addActiveHTTPRequest s pick req (Some ci) = (Return None, s', evs)
            \<and> activeReqs s' = [(req, Some ci)]"
    by (cases "addActiveHTTPRequest s pick req (Some ci)") auto
qed

theorem single_active_user_witness:
  "reachable ex_windows ex_busy
   \<and> trackerInv ex_windows ex_busy
   \<and> (1, Some ex_alice) \<in> set (activeReqs ex_busy)
   \<and> wfIdentity ex_windows ex_bob
   \<and> WindowsUserID ex_bob \<noteq> WindowsUserID ex_alice
   \<and> addActiveHTTPRequest ex_busy 0 2 (Some ex_bob) =
       (Return (Some (inUseOtherUserError (AlreadyInUseBy ''alice'' 4242))), ex_busy,
        [MuLock, MuUnlock])
   \<and> (\<exists>s' evs. addActiveHTTPRequest ex_after_alice 0 2 (Some ex_bob) = (Return None, s', evs)
         \<and> activeReqs s' = [(2, Some ex_bob)])"
proof -
  have inv: "trackerInv ex_windows ex_busy" using ex_busy_reachable by (rule reachable_trackerInv)
  have act: "(1, Some ex_alice) \<in> set (activeReqs ex_busy)" by (simp add: ex_busy_def)
  have wf: "wfIdentity ex_windows ex_bob" using ex_resolved(2) by (rule resolve_wfIdentity)
  have differ: "WindowsUserID ex_bob \<noteq> WindowsUserID ex_alice"
    by (simp add: ex_alice_eq ex_bob_eq)
  from single_active_user [of ex_windows ex_busy 1 ex_alice ex_bob 0 2 ex_backend]
       inv act wf differ
  obtain r' a' u where mem: "(r', Some a') \<in> set (activeReqs ex_busy)"
    and u: "User a' = Some u"
    and rej: "addActiveHTTPRequest ex_busy 0 2 (Some ex_bob) =
              (Return (Some (inUseOtherUserError (AlreadyInUseBy (Username u) (Pid a')))),
               ex_busy, [MuLock, MuUnlock])"
    by blast
  from mem have "a' = ex_alice" by (simp add: ex_busy_def)
  with u have "Username u = ''alice''" "Pid a' = 4242" by (auto simp: ex_alice_eq)
  with rej have rejected: "addActiveHTTPRequest ex_busy 0 2 (Some ex_bob) =
       (Return (Some (inUseOtherUserError (AlreadyInUseBy ''alice'' 4242))), ex_busy,
        [MuLock, MuUnlock])" by simp
  have idle: "activeReqs ex_after_alice = [] \<and> lb ex_after_alice = Some ex_backend
              \<and> CheckIPNConnectionAllowed ex_backend ex_bob = None"
    by (simp add: ex_after_alice_def ex_idle_def New_def ex_backend_def)
  with single_active_user [of ex_windows ex_after_alice 1 ex_alice ex_bob 0 2 ex_backend]
  have accepted: "\<exists>s' evs. addActiveHTTPRequest ex_after_alice 0 2 (Some ex_bob) = (Return None, s', evs)
         \<and> activeReqs s' = [(2, Some ex_bob)]" by blast
  from ex_busy_reachable inv act wf differ rejected accepted show ?thesis by blast
qed

text \<open>
  Claim C2, as stated, fails for an identity without a user id. On the Windows server
  whose last user was alice, with no request active, the identity that the resolver
  returns for a pipe whose process owner is the empty string is registered; its user id
  differs from the recorded \<open>lastUserID\<close>, which is not empty; and yet no reset is
  issued: the code resets only \<open>if uid != ""\<close>.
\<close>

theorem reset_needs_user_id_counterexample:
  "reachable ex_windows ex_after_alice
   \<and> resolve ex_windows ex_pipe_anon = (ex_anon, None)
   \<and> lastUserID ex_after_alice = ''S-1-5-21-1001''
   \<and> WindowsUserID ex_anon = ''''
   \<and> addActiveHTTPRequest ex_after_alice 0 3 (Some ex_anon) =
       (Return None, ex_after_alice\<lparr>activeReqs := [(3, Some ex_anon)]\<rparr>,
        [MuLock, ActiveSet 3, MuUnlock])
   \<and> resets [MuLock, ActiveSet 3, MuUnlock] = 0"
proof -
  have "addActiveHTTPRequest ex_after_alice 0 3 (Some ex_anon) =
       (Return None, ex_after_alice\<lparr>activeReqs := [(3, Some ex_anon)]\<rparr>,
        [MuLock, ActiveSet 3, MuUnlock])"
    by (simp add: addActiveHTTPRequest_def mustBackend_def checkConnIdentityLocked_def
                  sameUserCheck_def policyCheck_def ex_after_alice_def ex_idle_def New_def
                  ex_backend_def ex_anon_eq Let_def)
  moreover have "lastUserID ex_after_alice = ''S-1-5-21-1001''"
    by (simp add: ex_after_alice_def)
  moreover have "WindowsUserID ex_anon = ''''" by (simp add: ex_anon_eq)
  moreover have "resets [MuLock, ActiveSet 3, MuUnlock] = 0" by (simp add: resets_def)
  ultimately show ?thesis using ex_after_alice_reachable ex_resolved(3) by blast
qed

text \<open>
  Claim C2, amended. In a state that satisfies the tracker's invariant, a successful
  \<open>addActiveHTTPRequest\<close> registers the request and issues exactly one
  \<open>ResetForClientDisconnect\<close> if the new user id is not empty, differs from the recorded
  \<open>lastUserID\<close>, and that \<open>lastUserID\<close> was not empty; otherwise none, so not one per
  request. When it resets, the events are, in order: lock, the write to the active map,
  \<open>SetCurrentUserID\<close>, unlock, and last the reset, after which the function returns.
  \<open>lastUserID\<close> becomes the new user id unless that is empty.
\<close>

theorem user_switch_reset:
  assumes inv: "trackerInv env s"
    and ok: "addActiveHTTPRequest s pick req (Some ci) = (Return None, s', evs)"
  shows "activeReqs s' = mak_Set req (Some ci) (activeReqs s)
         \<and> resets evs =
             (if WindowsUserID ci \<noteq> '''' \<and> WindowsUserID ci \<noteq> lastUserID s
                 \<and> lastUserID s \<noteq> ''''
              then 1 else 0)
         \<and> (resets evs = 1 \<longrightarrow>
              evs = [MuLock, ActiveSet req, SetCurrentUserID (WindowsUserID ci), MuUnlock,
                     ResetForClientDisconnect])
         \<and> lastUserID s' = (if WindowsUserID ci \<noteq> '''' then WindowsUserID ci else lastUserID s)"
proof -
  let ?m = "mak_Set req (Some ci) (activeReqs s)"
  let ?first = "WindowsUserID ci \<noteq> '''' \<and> length ?m = 1"
  let ?switch = "WindowsUserID ci \<noteq> '''' \<and> WindowsUserID ci \<noteq> lastUserID s
                 \<and> lastUserID s \<noteq> ''''"
  from addActiveHTTPRequest_success [OF ok]
  have s': "s' = s\<lparr>lastUserID := (if ?first then WindowsUserID ci else lastUserID s),
                   activeReqs := ?m\<rparr>"
    and evs: "evs = [MuLock, ActiveSet req]
                 @ (if ?first then [SetCurrentUserID (WindowsUserID ci)] else [])
                 @ [MuUnlock]
                 @ (if ?first \<and> lastUserID s \<noteq> WindowsUserID ci \<and> lastUserID s \<noteq> ''''
                    then [ResetForClientDisconnect] else [])"
    by simp_all
  have idle: "activeReqs s = []"
    if "WindowsUserID ci \<noteq> ''''" "WindowsUserID ci \<noteq> lastUserID s"
    using that by (rule accepted_switch_idle [OF inv ok])
  have first: "?first" if "WindowsUserID ci \<noteq> ''''" "WindowsUserID ci \<noteq> lastUserID s"
    using idle [OF that] that by simp
  have doReset: "(?first \<and> lastUserID s \<noteq> WindowsUserID ci \<and> lastUserID s \<noteq> '''') = ?switch"
    using first by auto
  have registered: "activeReqs s' = ?m" using s' by simp
  have count: "resets evs = (if ?switch then 1 else 0)"
  proof (cases ?switch)
    case True
    with first have "?first" by simp
    with True evs show ?thesis by (auto simp: resets_def)
  next
    case False
    with doReset evs show ?thesis by (auto simp: resets_def)
  qed
  have order: "evs = [MuLock, ActiveSet req, SetCurrentUserID (WindowsUserID ci), MuUnlock,
                     ResetForClientDisconnect]" if "resets evs = 1"
  proof -
    have sw: ?switch
    proof (rule ccontr)
      assume "\<not> ?switch"
      with count have "resets evs = 0" by simp
      with that show False by simp
    qed
    with first have "?first" by simp
    with sw evs show ?thesis by auto
  qed
  have last: "lastUserID s' = (if WindowsUserID ci \<noteq> '''' then WindowsUserID ci else lastUserID s)"
  proof (cases "WindowsUserID ci \<noteq> '''' \<and> WindowsUserID ci \<noteq> lastUserID s")
    case True
    with first have "?first" by simp
    with s' True show ?thesis by simp
  next
    case False
    with s' show ?thesis by auto
  qed
  from registered count order last show ?thesis by blast
qed

theorem user_switch_reset_witness:
  "trackerInv ex_windows ex_after_alice
   \<and> addActiveHTTPRequest ex_after_alice 0 2 (Some ex_bob) =
       (Return None,
        ex_after_alice\<lparr>lastUserID := ''S-1-5-21-1002'', activeReqs := [(2, Some ex_bob)]\<rparr>,
        [MuLock, ActiveSet 2, SetCurrentUserID ''S-1-5-21-1002'', MuUnlock,
         ResetForClientDisconnect])
   \<and> resets [MuLock, ActiveSet 2, SetCurrentUserID ''S-1-5-21-1002'', MuUnlock,
              ResetForClientDisconnect] = 1
   \<and> trackerInv ex_windows ex_busy
   \<and> addActiveHTTPRequest ex_busy 0 4 (Some ex_alice) =
       (Return None, ex_busy\<lparr>activeReqs := [(1, Some ex_alice), (4, Some ex_alice)]\<rparr>,
        [MuLock, ActiveSet 4, MuUnlock])
   \<and> resets [MuLock, ActiveSet 4, MuUnlock] = 0"
proof -
  have inv1: "trackerInv ex_windows ex_after_alice"
    using ex_after_alice_reachable by (rule reachable_trackerInv)
  have inv2: "trackerInv ex_windows ex_busy"
    using ex_busy_reachable by (rule reachable_trackerInv)
  have uids: "WindowsUserID ex_bob = ''S-1-5-21-1002''" "WindowsUserID ex_alice = ''S-1-5-21-1001''"
    "lastUserID ex_after_alice = ''S-1-5-21-1001''" "lastUserID ex_busy = ''S-1-5-21-1001''"
    by (simp_all add: ex_bob_eq ex_alice_eq ex_after_alice_def ex_busy_def)
  from user_switch_reset [OF inv1 ex_bob_after_alice] uids
  have r1: "resets [MuLock, ActiveSet 2, SetCurrentUserID ''S-1-5-21-1002'', MuUnlock,
              ResetForClientDisconnect] = 1" by simp
  from user_switch_reset [OF inv2 ex_alice_again] uids
  have r2: "resets [MuLock, ActiveSet 4, MuUnlock] = 0" by simp
  from inv1 inv2 r1 r2 ex_bob_after_alice ex_alice_again show ?thesis by blast
qed

text \<open>
  Claim C3. Idle reset. \<open>onDone\<close> deletes its request from the active map. When it is the
  last active request the map becomes empty, and whenever the map is empty afterwards
  \<open>onDone\<close> calls \<open>ResetForClientDisconnect\<close> exactly once if \<open>resetOnZero\<close> is set and
  the backend is not in server mode, after unlocking \<open>s.mu\<close>, and not at all if the
  backend is in server mode or \<open>resetOnZero\<close> is false. While requests remain active it
  does not reset.
\<close>

theorem onDone_idle_reset:
  "fst (onDone b req s) = s\<lparr>activeReqs := delete req (activeReqs s)\<rparr>
   \<and> (fst ` set (activeReqs s) \<subseteq> {req} \<longrightarrow> length (activeReqs (fst (onDone b req s))) = 0)
   \<and> (length (activeReqs (fst (onDone b req s))) = 0 \<longrightarrow>
        snd (onDone b req s) =
          [MuLock, ActiveDelete req, MuUnlock]
            @ (if resetOnZero s \<and> \<not> InServerMode b then [ResetForClientDisconnect] else [])
        \<and> resets (snd (onDone b req s)) = (if resetOnZero s \<and> \<not> InServerMode b then 1 else 0))
   \<and> (length (activeReqs (fst (onDone b req s))) \<noteq> 0 \<longrightarrow> resets (snd (onDone b req s)) = 0)"
proof (intro conjI impI)
  show "fst (onDone b req s) = s\<lparr>activeReqs := delete req (activeReqs s)\<rparr>"
    by (simp add: onDone_def Let_def)
next
  assume "fst ` set (activeReqs s) \<subseteq> {req}"
  then have "delete req (activeReqs s) = []" by (simp only: delete_Nil_iff)
  then show "length (activeReqs (fst (onDone b req s))) = 0"
    by (simp add: onDone_def Let_def)
next
  assume zero: "length (activeReqs (fst (onDone b req s))) = 0"
  then have "delete req (activeReqs s) = []" by (simp add: onDone_def Let_def)
  then show "snd (onDone b req s) =
          [MuLock, ActiveDelete req, MuUnlock]
            @ (if resetOnZero s \<and> \<not> InServerMode b then [ResetForClientDisconnect] else [])"
    by (simp add: onDone_def Let_def)
  then show "resets (snd (onDone b req s)) = (if resetOnZero s \<and> \<not> InServerMode b then 1 else 0)"
    by (simp add: resets_def)
next
  assume "length (activeReqs (fst (onDone b req s))) \<noteq> 0"
  then have "delete req (activeReqs s) \<noteq> []" by (simp add: onDone_def Let_def)
  then show "resets (snd (onDone b req s)) = 0"
    by (simp add: onDone_def Let_def resets_def)
qed

theorem onDone_idle_reset_witness:
  "fst ` set (activeReqs ex_busy) \<subseteq> {1}
   \<and> length (activeReqs (fst (onDone ex_backend 1 ex_busy))) = 0
   \<and> snd (onDone ex_backend 1 ex_busy)
       = [MuLock, ActiveDelete 1, MuUnlock, ResetForClientDisconnect]
   \<and> resets (snd (onDone ex_backend 1 ex_busy)) = 1
   \<and> resets (snd (onDone (ex_backend\<lparr>InServerMode := True\<rparr>) 1 ex_busy)) = 0
   \<and> resets (snd (onDone ex_backend 1 (ex_busy\<lparr>resetOnZero := False\<rparr>))) = 0"
proof -
  let ?persistent = "ex_backend\<lparr>InServerMode := True\<rparr>"
  let ?attached = "ex_busy\<lparr>resetOnZero := False\<rparr>"
  have last: "fst ` set (activeReqs ex_busy) \<subseteq> {1}"
    and last': "fst ` set (activeReqs ?attached) \<subseteq> {1}"
    by (simp_all add: ex_busy_def)
  have mode: "resetOnZero ex_busy" "\<not> InServerMode ex_backend" "InServerMode ?persistent"
    "\<not> resetOnZero ?attached"
    by (simp_all add: ex_busy_def ex_idle_def New_def ex_windows_def ex_backend_def)
  from onDone_idle_reset [of ex_backend 1 ex_busy] last
  have z1: "length (activeReqs (fst (onDone ex_backend 1 ex_busy))) = 0" by blast
  with onDone_idle_reset [of ex_backend 1 ex_busy]
  have "snd (onDone ex_backend 1 ex_busy) =
          [MuLock, ActiveDelete 1, MuUnlock]
            @ (if resetOnZero ex_busy \<and> \<not> InServerMode ex_backend
               then [ResetForClientDisconnect] else [])
        \<and> resets (snd (onDone ex_backend 1 ex_busy))
            = (if resetOnZero ex_busy \<and> \<not> InServerMode ex_backend then 1 else 0)"
    by blast
  with mode have r1: "snd (onDone ex_backend 1 ex_busy)
       = [MuLock, ActiveDelete 1, MuUnlock, ResetForClientDisconnect]
     \<and> resets (snd (onDone ex_backend 1 ex_busy)) = 1" by (simp add: resets_def)
  from onDone_idle_reset [of ?persistent 1 ex_busy] last
  have "length (activeReqs (fst (onDone ?persistent 1 ex_busy))) = 0" by blast
  with onDone_idle_reset [of ?persistent 1 ex_busy]
  have "resets (snd (onDone ?persistent 1 ex_busy))
          = (if resetOnZero ex_busy \<and> \<not> InServerMode ?persistent then 1 else 0)"
    by blast
  with mode have r2: "resets (snd (onDone ?persistent 1 ex_busy)) = 0" by simp
  from onDone_idle_reset [of ex_backend 1 ?attached] last'
  have "length (activeReqs (fst (onDone ex_backend 1 ?attached))) = 0" by blast
  with onDone_idle_reset [of ex_backend 1 ?attached]
  have "resets (snd (onDone ex_backend 1 ?attached))
          = (if resetOnZero ?attached \<and> \<not> InServerMode ex_backend then 1 else 0)"
    by blast
  with mode have r3: "resets (snd (onDone ex_backend 1 ?attached)) = 0" by simp
  from last z1 r1 r2 r3 show ?thesis by blast
qed

subsection \<open>Lifecycle\<close>

text \<open>
  Claim C4. Exactly-once bind. On a server whose backend pointer is nil, \<open>SetLocalBackend\<close>
  with a non-nil backend returns and leaves the pointer set to that backend. On a server
  whose pointer is set it panics with "already set" and leaves the server as it was, and
  so does the bind that ends any history of further lifecycle calls (calls of \<open>Run\<close>
  included) on such a server: the pointer still holds the first backend. With nil it
  panics with "nil LocalBackend".
\<close>

theorem SetLocalBackend_binds_exactly_once:
  "(lb s = None \<longrightarrow>
      (\<exists>s' evs. SetLocalBackend (Some b) s = (Return (), s', evs) \<and> lb s' = Some b))
   \<and> (lb s = Some old \<longrightarrow> SetLocalBackend (Some b) s = (Panic ''already set'', s, []))
   \<and> SetLocalBackend None s = (Panic ''nil LocalBackend'', s, [])
   \<and> (lb s = Some old \<longrightarrow>
        (\<exists>m s' evs. lifecycle (cs @ [Call_SetLocalBackend p]) s = (Panic m, s', evs)
                     \<and> lb s' = Some old))"
proof (intro conjI impI)
  assume unset: "lb s = None"
  obtain s' evs where st: "startBackendIfNeeded (s\<lparr>lb := Some b\<rparr>) = (s', evs)"
    by (cases "startBackendIfNeeded (s\<lparr>lb := Some b\<rparr>)")
  then have "lb s' = Some b"
    using startBackendIfNeeded_lb [of "s\<lparr>lb := Some b\<rparr>"] by simp
  moreover from unset st have "SetLocalBackend (Some b) s = (Return (), s', evs)"
    by (simp add: SetLocalBackend_def)
  ultimately show "\<exists>s' evs. SetLocalBackend (Some b) s = (Return (), s', evs) \<and> lb s' = Some b"
    by blast
next
  assume "lb s = Some old"
  then show "SetLocalBackend (Some b) s = (Panic ''already set'', s, [])"
    by (simp add: SetLocalBackend_def)
next
  show "SetLocalBackend None s = (Panic ''nil LocalBackend'', s, [])"
    by (simp add: SetLocalBackend_def)
next
  assume bound: "lb s = Some old"
  from lifecycle_second_bind_panics [OF bound] obtain m s' evs where
    run: "lifecycle (cs @ [Call_SetLocalBackend p]) s = (Panic m, s', evs)" by blast
  from lifecycle_bound_keeps [OF bound run] have "lb s' = Some old" .
  with run show "\<exists>m s' evs. lifecycle (cs @ [Call_SetLocalBackend p]) s = (Panic m, s', evs)
                     \<and> lb s' = Some old" by blast
qed

theorem SetLocalBackend_binds_exactly_once_witness:
  "lb (New ex_windows) = None
   \<and> (\<exists>s' evs. SetLocalBackend (Some ex_backend) (New ex_windows) = (Return (), s', evs)
                 \<and> lb s' = Some ex_backend)
   \<and> lb ((New ex_windows)\<lparr>lb := Some ex_backend\<rparr>) = Some ex_backend
   \<and> SetLocalBackend (Some ex_backend) ((New ex_windows)\<lparr>lb := Some ex_backend\<rparr>)
       = (Panic ''already set'', (New ex_windows)\<lparr>lb := Some ex_backend\<rparr>, [])
   \<and> (\<exists>m s' evs.
         lifecycle ([Call_Run] @ [Call_SetLocalBackend (Some ex_backend)])
           ((New ex_windows)\<lparr>lb := Some ex_backend\<rparr>) = (Panic m, s', evs)
         \<and> lb s' = Some ex_backend)"
proof -
  have unset: "lb (New ex_windows) = None" by (simp add: New_def)
  have bound: "lb ((New ex_windows)\<lparr>lb := Some ex_backend\<rparr>) = Some ex_backend" by simp
  from SetLocalBackend_binds_exactly_once
         [of "New ex_windows" ex_backend ex_backend "[]" None]
       SetLocalBackend_binds_exactly_once
         [of "(New ex_windows)\<lparr>lb := Some ex_backend\<rparr>" ex_backend ex_backend "[Call_Run]"
             "Some ex_backend"]
       unset bound
  show ?thesis by blast
qed

text \<open>
  Claim C5. Exactly-once start. \<open>startBackendIfNeeded\<close> calls \<open>Start\<close> exactly in a state
  where \<open>Run\<close> has been called, the backend is bound, its \<open>Prefs\<close> are valid and the once
  has not fired, and it then fires the once. After every history of \<open>SetLocalBackend\<close> and
  \<open>Run\<close> calls on a new server, \<open>Start\<close> has been called once if the three conditions
  hold in the state reached and not at all otherwise: never twice. With valid \<open>Prefs\<close>,
  binding then running and running then binding both end with exactly one \<open>Start\<close>,
  called by the second of the two.
\<close>

theorem Start_exactly_once:
  "startBackendIfNeeded s =
     (if readyToStart s \<and> \<not> startBackendOnce s then (s\<lparr>startBackendOnce := True\<rparr>, [Start])
      else (s, []))
   \<and> (lifecycle cs (New env) = (r, s', evs) \<longrightarrow>
        starts evs = (if readyToStart s' then 1 else 0))
   \<and> (Prefs_Valid b \<longrightarrow>
        lifecycle [Call_SetLocalBackend (Some b), Call_Run] (New env)
          = (Return (), (New env)\<lparr>lb := Some b, startBackendOnce := True, runCalled := True\<rparr>,
             [Start])
        \<and> lifecycle [Call_Run, Call_SetLocalBackend (Some b)] (New env)
          = (Return (), (New env)\<lparr>lb := Some b, startBackendOnce := True, runCalled := True\<rparr>,
             [Start]))"
proof (intro conjI impI)
  show "startBackendIfNeeded s =
     (if readyToStart s \<and> \<not> startBackendOnce s then (s\<lparr>startBackendOnce := True\<rparr>, [Start])
      else (s, []))"
    by (simp add: startBackendIfNeeded_def readyToStart_def split: option.splits)
next
  assume run: "lifecycle cs (New env) = (r, s', evs)"
  from lifecycle_starts [OF New_not_ready run]
  have "startBackendOnce s' = readyToStart s'"
    and "starts evs + (if startBackendOnce (New env) then 1 else 0)
           = (if startBackendOnce s' then 1 else 0)"
    by simp_all
  moreover have "\<not> startBackendOnce (New env)" by (simp add: New_def)
  ultimately show "starts evs = (if readyToStart s' then 1 else 0)" by simp
next
  assume "Prefs_Valid b"
  then show "lifecycle [Call_SetLocalBackend (Some b), Call_Run] (New env)
          = (Return (), (New env)\<lparr>lb := Some b, startBackendOnce := True, runCalled := True\<rparr>,
             [Start])"
    by (simp add: SetLocalBackend_def Run_def startBackendIfNeeded_def New_def)
next
  assume "Prefs_Valid b"
  then show "lifecycle [Call_Run, Call_SetLocalBackend (Some b)] (New env)
          = (Return (), (New env)\<lparr>lb := Some b, startBackendOnce := True, runCalled := True\<rparr>,
             [Start])"
    by (simp add: SetLocalBackend_def Run_def startBackendIfNeeded_def New_def)
qed

theorem Start_exactly_once_witness:
  "Prefs_Valid ex_backend
   \<and> lifecycle [Call_SetLocalBackend (Some ex_backend), Call_Run] (New ex_windows)
       = (Return (),
          (New ex_windows)\<lparr>lb := Some ex_backend, startBackendOnce := True, runCalled := True\<rparr>,
          [Start])
   \<and> lifecycle [Call_Run, Call_SetLocalBackend (Some ex_backend)] (New ex_windows)
       = (Return (),
          (New ex_windows)\<lparr>lb := Some ex_backend, startBackendOnce := True, runCalled := True\<rparr>,
          [Start])
   \<and> starts [Start] = 1
   \<and> readyToStart
        ((New ex_windows)\<lparr>lb := Some ex_backend, startBackendOnce := True, runCalled := True\<rparr>)"
proof -
  have valid: "Prefs_Valid ex_backend" by (simp add: ex_backend_def)
  note inst = Start_exactly_once
    [of "New ex_windows" "[Call_Run, Call_SetLocalBackend (Some ex_backend)]" ex_windows
        "Return ()"
        "(New ex_windows)\<lparr>lb := Some ex_backend, startBackendOnce := True, runCalled := True\<rparr>"
        "[Start]" ex_backend]
  from inst valid show ?thesis
    by (simp add: starts_def readyToStart_def)
qed

subsection \<open>Permission calculator\<close>



text \<open>
  Claim C7. Domain-socket permissions. On a platform other than \<open>windows\<close> and \<open>js\<close>, with
  the backend bound (as it is when \<open>serveHTTP\<close> calls), \<open>localAPIPermissions\<close> grants
  read exactly when the connection is a unix socket, and write exactly when in addition
  \<open>IsReadonlyConn\<close> is false for the backend's operator user id. In the scenario, a unix
  socket connection with credential uid 1000 and operator id 1000, nothing else being
  configured (\<open>TS_PERMIT_CERT_UID\<close> unset), the result is read without write, and
  \<open>connCanFetchCerts\<close> is false. More generally, for a connection whose credential user
  id is the configured operator id, the result is read without write and
  \<open>connCanFetchCerts\<close> holds exactly when \<open>TS_PERMIT_CERT_UID\<close>, mapped through
  \<open>userIDFromString\<close>, is that user id. That the operator id is read-only is the spec's
  account of \<open>IsReadonlyConn\<close>, whose code is not at hand.
\<close>

theorem localAPIPermissions_domain_socket:
  assumes "GOOS env \<noteq> ''windows''" and "GOOS env \<noteq> ''js''" and "lb s = Some b"
  shows "localAPIPermissions env s pick ci =
           Return (IsUnixSock ci, IsUnixSock ci \<and> \<not> IsReadonlyConn ci (OperatorUserID b))
         \<and> (IsUnixSock ci \<and> Creds ci = Some creds \<and> Creds_UserID creds = (''1000'', True)
              \<and> OperatorUserID b = ''1000'' \<and> TS_PERMIT_CERT_UID env = '''' \<longrightarrow>
             localAPIPermissions env s pick ci = Return (True, False)
             \<and> \<not> connCanFetchCerts env ci)
         \<and> (IsUnixSock ci \<and> Creds ci = Some creds \<and> Creds_UserID creds = (u, True)
              \<and> u \<noteq> '''' \<and> OperatorUserID b = u \<longrightarrow>
             localAPIPermissions env s pick ci = Return (True, False)
             \<and> (connCanFetchCerts env ci \<longleftrightarrow>
                  userIDFromString env (TS_PERMIT_CERT_UID env) = u))"
proof (intro conjI impI)
  show general: "localAPIPermissions env s pick ci =
           Return (IsUnixSock ci, IsUnixSock ci \<and> \<not> IsReadonlyConn ci (OperatorUserID b))"
    using assms by (rule localAPIPermissions_unix)
  {
    assume sc: "IsUnixSock ci \<and> Creds ci = Some creds \<and> Creds_UserID creds = (''1000'', True)
              \<and> OperatorUserID b = ''1000'' \<and> TS_PERMIT_CERT_UID env = ''''"
    then have "IsReadonlyConn ci (OperatorUserID b)"
      using IsReadonlyConn_operator [of ci creds "''1000''"] by simp
    with general sc show "localAPIPermissions env s pick ci = Return (True, False)" by simp
    from sc have "userIDFromString env (TS_PERMIT_CERT_UID env) = ''''"
      by (simp add: userIDFromString_def)
    with sc show "\<not> connCanFetchCerts env ci" unfolding connCanFetchCerts_iff by auto
  }
  {
    assume sc: "IsUnixSock ci \<and> Creds ci = Some creds \<and> Creds_UserID creds = (u, True)
              \<and> u \<noteq> '''' \<and> OperatorUserID b = u"
    then have "IsReadonlyConn ci (OperatorUserID b)"
      using IsReadonlyConn_operator [of ci creds u] by simp
    with general sc show "localAPIPermissions env s pick ci = Return (True, False)" by simp
    from sc show "connCanFetchCerts env ci \<longleftrightarrow> userIDFromString env (TS_PERMIT_CERT_UID env) = u"
      unfolding connCanFetchCerts_iff by auto
  }
qed

theorem localAPIPermissions_domain_socket_witness:
  "GOOS ex_linux \<noteq> ''windows'' \<and> GOOS ex_linux \<noteq> ''js''
   \<and> lb ex_linux_server = Some ex_backend
   \<and> IsUnixSock ex_uid_1000
   \<and> Creds ex_uid_1000 = Some \<lparr>Creds_UserID = (''1000'', True)\<rparr>
   \<and> OperatorUserID ex_backend = ''1000''
   \<and> TS_PERMIT_CERT_UID ex_linux = ''''
   \<and> localAPIPermissions ex_linux ex_linux_server 0 ex_uid_1000 = Return (True, False)
   \<and> \<not> connCanFetchCerts ex_linux ex_uid_1000"
proof -
  have os: "GOOS ex_linux \<noteq> ''windows''" "GOOS ex_linux \<noteq> ''js''"
    by (simp_all add: ex_linux_def)
  have bound: "lb ex_linux_server = Some ex_backend" by (simp add: ex_linux_server_def)
  have conn: "IsUnixSock ex_uid_1000"
    "Creds ex_uid_1000 = Some \<lparr>Creds_UserID = (''1000'', True)\<rparr>"
    "Creds_UserID \<lparr>Creds_UserID = (''1000'', True)\<rparr> = (''1000'', True)"
    by (simp_all add: ex_uid_1000_eq)
  have operator: "OperatorUserID ex_backend = ''1000''" by (simp add: ex_backend_def)
  have unset: "TS_PERMIT_CERT_UID ex_linux = ''''" by (simp add: ex_linux_def)
  from localAPIPermissions_domain_socket
         [OF os bound, of 0 ex_uid_1000 "\<lparr>Creds_UserID = (''1000'', True)\<rparr>" "''1000''"]
       conn operator unset
  have "localAPIPermissions ex_linux ex_linux_server 0 ex_uid_1000 = Return (True, False)
        \<and> \<not> connCanFetchCerts ex_linux ex_uid_1000"
    by blast
  with os bound conn operator unset show ?thesis by blast
qed




subsection \<open>Identity resolver\<close>

text \<open>
  Claim C9. The resolver of the builds other than Windows never fails: for every
  connection \<open>getConnIdentity\<close> returns a nil error and an identity with \<open>NotWindows\<close>
  set, with \<open>IsUnixSock\<close> set exactly when the connection is a \<open>*net.UnixConn\<close>, and
  with \<open>Creds\<close> nil, not an error, when \<open>peercred.Get\<close> fails. The Windows fields keep
  their zero values.
\<close>

theorem getConnIdentity_never_fails:
  "snd (getConnIdentity c) = None
   \<and> NotWindows (fst (getConnIdentity c))
   \<and> IsUnixSock (fst (getConnIdentity c)) = isUnixConn c
   \<and> Creds (fst (getConnIdentity c)) =
       (case peercred_Get c of Inl err \<Rightarrow> None | Inr creds \<Rightarrow> Some creds)
   \<and> Conn (fst (getConnIdentity c)) = c
   \<and> Pid (fst (getConnIdentity c)) = 0
   \<and> UserID (fst (getConnIdentity c)) = ''''
   \<and> User (fst (getConnIdentity c)) = None"
  by (simp add: getConnIdentity_def connIdentity_zero_def)

theorem getConnIdentity_never_fails_witness:
  "snd (getConnIdentity ex_conn) = None
   \<and> NotWindows (fst (getConnIdentity ex_conn))
   \<and> IsUnixSock (fst (getConnIdentity ex_conn))
   \<and> Creds (fst (getConnIdentity ex_conn)) = None"
  using getConnIdentity_never_fails [of ex_conn] by (simp add: ex_conn_def)

subsection \<open>Rejection\<close>

text \<open>
  Claim C10. Rejection is atomic. Whenever \<open>addActiveHTTPRequest\<close> returns a non-nil
  error, the server is unchanged (the active map and \<open>lastUserID\<close> included), and the
  call made no \<open>SetCurrentUserID\<close>, no \<open>ResetForClientDisconnect\<close> and no write to the
  active map: at most \<open>s.mu\<close> was locked and unlocked. The error is the internal error
  for a nil identity and an \<open>inUseOtherUserError\<close> (user conflict or the backend's
  refusal) otherwise.
\<close>

theorem addActiveHTTPRequest_rejection_atomic:
  assumes "addActiveHTTPRequest s pick req ci_ptr = (Return (Some err), s', evs)"
  shows "s' = s
         \<and> (evs = [] \<or> evs = [MuLock, MuUnlock])
         \<and> resets evs = 0
         \<and> (\<forall>uid. SetCurrentUserID uid \<notin> set evs)
         \<and> (\<forall>r. ActiveSet r \<notin> set evs)
         \<and> (if ci_ptr = None then err = errors_New ''internal error: nil connIdentity''
             else \<exists>w. err = inUseOtherUserError w)"
proof (cases ci_ptr)
  case None
  with assms show ?thesis
    by (auto simp: addActiveHTTPRequest_def resets_def)
next
  case (Some ci)
  show ?thesis
  proof (cases "mustBackend s")
    case (Panic m)
    with assms Some show ?thesis by (simp add: addActiveHTTPRequest_def)
  next
    case (Return b)
    show ?thesis
    proof (cases "checkConnIdentityLocked s pick ci")
      case (Panic m)
      with assms Some Return show ?thesis by (simp add: addActiveHTTPRequest_def)
    next
      case chk: (Return e)
      show ?thesis
      proof (cases e)
        case None
        with assms Some Return chk show ?thesis
          by (simp add: addActiveHTTPRequest_def Let_def split: if_splits)
      next
        case (Some e')
        with assms \<open>ci_ptr = Some ci\<close> Return chk have "err = e'" "s' = s" "evs = [MuLock, MuUnlock]"
          by (simp_all add: addActiveHTTPRequest_def)
        moreover from checkConnIdentityLocked_error_kind chk Some
        have "\<exists>w. e' = inUseOtherUserError w" by blast
        ultimately show ?thesis using \<open>ci_ptr = Some ci\<close> by (simp add: resets_def)
      qed
    qed
  qed
qed

theorem addActiveHTTPRequest_rejection_atomic_witness:
  "addActiveHTTPRequest ex_busy 0 2 (Some ex_bob)
     = (Return (Some (inUseOtherUserError (AlreadyInUseBy ''alice'' 4242))), ex_busy,
        [MuLock, MuUnlock])
   \<and> resets [MuLock, MuUnlock] = 0
   \<and> (\<forall>uid. SetCurrentUserID uid \<notin> set [MuLock, MuUnlock])
   \<and> (\<forall>r. ActiveSet r \<notin> set [MuLock, MuUnlock])"
  using addActiveHTTPRequest_rejection_atomic [OF ex_busy_rejects_bob [of 0]]
        ex_busy_rejects_bob [of 0]
  by simp

end
